theory Spec2Isabelle
  imports Complex_Main
begin

section \<open>JavaScript numbers\<close>

text \<open>
  The three engine classes of the drawer core (\<open>PointerTracker\<close>, \<open>SpringAnimation\<close>,
  \<open>SnapPointCalculator\<close>) compute on JavaScript numbers. A number is modelled as a real,
  one of the two infinities, or \<open>NaN\<close>. The arithmetic follows IEEE 754 on the special
  values (\<open>NaN\<close> is absorbing, \<open>Infinity - Infinity\<close>, \<open>0 * Infinity\<close> and \<open>0 / 0\<close> are
  \<open>NaN\<close>, a non-zero number divided by zero is an infinity, every comparison with \<open>NaN\<close> is
  false) and is exact on the finite values: rounding, overflow of a finite result and the
  sign of zero are not modelled (a zero divisor is taken as \<open>+0\<close>).
\<close>

datatype jsnum = Fin real | PInf | NInf | NaN

instantiation jsnum :: "{plus, minus, uminus, times, divide, abs, ord, zero, one}"
begin

fun uminus_jsnum :: "jsnum \<Rightarrow> jsnum" where
  "uminus_jsnum (Fin a) = Fin (- a)"
| "uminus_jsnum PInf = NInf"
| "uminus_jsnum NInf = PInf"
| "uminus_jsnum NaN = NaN"

fun plus_jsnum :: "jsnum \<Rightarrow> jsnum \<Rightarrow> jsnum" where
  "plus_jsnum (Fin a) (Fin b) = Fin (a + b)"
| "plus_jsnum NaN _ = NaN"
| "plus_jsnum _ NaN = NaN"
| "plus_jsnum PInf NInf = NaN"
| "plus_jsnum NInf PInf = NaN"
| "plus_jsnum PInf _ = PInf"
| "plus_jsnum _ PInf = PInf"
| "plus_jsnum NInf _ = NInf"
| "plus_jsnum _ NInf = NInf"

definition minus_jsnum :: "jsnum \<Rightarrow> jsnum \<Rightarrow> jsnum" where
  "minus_jsnum a b = a + (- b)"

definition zero_jsnum :: jsnum where
  "zero_jsnum = Fin 0"

definition one_jsnum :: jsnum where
  "one_jsnum = Fin 1"

fun times_jsnum :: "jsnum \<Rightarrow> jsnum \<Rightarrow> jsnum" where
  "times_jsnum (Fin a) (Fin b) = Fin (a * b)"
| "times_jsnum NaN _ = NaN"
| "times_jsnum _ NaN = NaN"
| "times_jsnum (Fin a) PInf = (if a = 0 then NaN else if 0 < a then PInf else NInf)"
| "times_jsnum (Fin a) NInf = (if a = 0 then NaN else if 0 < a then NInf else PInf)"
| "times_jsnum PInf (Fin b) = (if b = 0 then NaN else if 0 < b then PInf else NInf)"
| "times_jsnum NInf (Fin b) = (if b = 0 then NaN else if 0 < b then NInf else PInf)"
| "times_jsnum PInf PInf = PInf"
| "times_jsnum PInf NInf = NInf"
| "times_jsnum NInf PInf = NInf"
| "times_jsnum NInf NInf = PInf"

fun divide_jsnum :: "jsnum \<Rightarrow> jsnum \<Rightarrow> jsnum" where
  "divide_jsnum (Fin a) (Fin b) =
     (if b \<noteq> 0 then Fin (a / b) else if 0 < a then PInf else if a < 0 then NInf else NaN)"
| "divide_jsnum NaN _ = NaN"
| "divide_jsnum _ NaN = NaN"
| "divide_jsnum (Fin a) _ = Fin 0"
| "divide_jsnum PInf (Fin b) = (if 0 \<le> b then PInf else NInf)"
| "divide_jsnum NInf (Fin b) = (if 0 \<le> b then NInf else PInf)"
| "divide_jsnum PInf PInf = NaN"
| "divide_jsnum PInf NInf = NaN"
| "divide_jsnum NInf PInf = NaN"
| "divide_jsnum NInf NInf = NaN"

fun abs_jsnum :: "jsnum \<Rightarrow> jsnum" where
  "abs_jsnum (Fin a) = Fin \<bar>a\<bar>"
| "abs_jsnum PInf = PInf"
| "abs_jsnum NInf = PInf"
| "abs_jsnum NaN = NaN"

fun less_jsnum :: "jsnum \<Rightarrow> jsnum \<Rightarrow> bool" where
  "less_jsnum (Fin a) (Fin b) = (a < b)"
| "less_jsnum NaN _ = False"
| "less_jsnum _ NaN = False"
| "less_jsnum PInf _ = False"
| "less_jsnum _ NInf = False"
| "less_jsnum _ PInf = True"
| "less_jsnum NInf _ = True"

definition less_eq_jsnum :: "jsnum \<Rightarrow> jsnum \<Rightarrow> bool" where
  "less_eq_jsnum a b = (a < b \<or> (a \<noteq> NaN \<and> a = b))"

instance ..

end

text \<open>The slash of HOL is the division of the class \<open>inverse\<close>; the reciprocal itself is
  not used by the program.\<close>

instantiation jsnum :: inverse
begin

definition inverse_jsnum :: "jsnum \<Rightarrow> jsnum" where
  "inverse_jsnum a = divide (Fin 1) a"

instance ..

end

text \<open>Strict equality \<open>a === b\<close> on numbers: \<open>NaN\<close> equals nothing, itself included.\<close>

definition js_eq :: "jsnum \<Rightarrow> jsnum \<Rightarrow> bool" where
  "js_eq a b = (a \<noteq> NaN \<and> a = b)"

text \<open>\<open>Math.min\<close> and \<open>Math.max\<close> of two arguments: \<open>NaN\<close> if either is \<open>NaN\<close>.\<close>

definition Math_min :: "jsnum \<Rightarrow> jsnum \<Rightarrow> jsnum" where
  "Math_min a b = (if a = NaN \<or> b = NaN then NaN else if b < a then b else a)"

definition Math_max :: "jsnum \<Rightarrow> jsnum \<Rightarrow> jsnum" where
  "Math_max a b = (if a = NaN \<or> b = NaN then NaN else if a < b then b else a)"

text \<open>
  Reading an array at a number, \<open>xs[i]\<close>: the element when \<open>i\<close> is an integer within
  \<open>[0, xs.length)\<close>, and \<open>undefined\<close> (here \<open>None\<close>) at every other number: a negative
  one, a fraction, an infinity, \<open>NaN\<close>.
\<close>

fun js_index :: "'a list \<Rightarrow> jsnum \<Rightarrow> 'a option" where
  "js_index xs (Fin r) =
     (if 0 \<le> r \<and> r < real (length xs) \<and> real_of_int \<lfloor>r\<rfloor> = r
      then Some (xs ! nat \<lfloor>r\<rfloor>) else None)"
| "js_index xs PInf = None"
| "js_index xs NInf = None"
| "js_index xs NaN = None"

section \<open>Strings\<close>

text \<open>\<open>value.endsWith(suffix)\<close>.\<close>

definition endsWith :: "string \<Rightarrow> string \<Rightarrow> bool" where
  "endsWith value suffix =
     (length suffix \<le> length value \<and> drop (length value - length suffix) value = suffix)"

text \<open>
  \<open>Number.parseFloat\<close> (ECMAScript, \<open>parseFloat(string)\<close>): leading white space is
  trimmed, the longest prefix that is a \<open>StrDecimalLiteral\<close> is read (an optional sign, then
  \<open>Infinity\<close>, or digits with an optional fraction, or a fraction alone, then an optional
  exponent part, taken only when it has a digit), and the result is \<open>NaN\<close> when there is no
  such prefix. Only the ASCII white space characters are recognised here.
\<close>

definition isWhiteSpace :: "char \<Rightarrow> bool" where
  "isWhiteSpace c = (c \<in> set [CHR 0x20, CHR 0x09, CHR 0x0A, CHR 0x0B, CHR 0x0C, CHR 0x0D])"

definition isDigit :: "char \<Rightarrow> bool" where
  "isDigit c = (c \<in> set ''0123456789'')"

definition digitsValue :: "string \<Rightarrow> nat" where
  "digitsValue ds = foldl (\<lambda>acc c. 10 * acc + (of_char c - 48)) 0 ds"

definition isSign :: "char \<Rightarrow> bool" where
  "isSign c = (c = CHR ''+'' \<or> c = CHR ''-'')"

definition exponentPart :: "string \<Rightarrow> int" where
  "exponentPart r =
     (case r of
        [] \<Rightarrow> 0
      | c # r' \<Rightarrow>
          if c = CHR ''e'' \<or> c = CHR ''E'' then
            (let neg = (r' \<noteq> [] \<and> hd r' = CHR ''-'');
                 d = (if r' \<noteq> [] \<and> isSign (hd r') then tl r' else r');
                 ds = takeWhile isDigit d
             in if ds = [] then 0
                else if neg then - int (digitsValue ds) else int (digitsValue ds))
          else 0)"

definition parseFloat :: "string \<Rightarrow> jsnum" where
  "parseFloat s =
     (let t = dropWhile isWhiteSpace s;
          neg = (t \<noteq> [] \<and> hd t = CHR ''-'');
          u = (if t \<noteq> [] \<and> isSign (hd t) then tl t else t)
      in if take 8 u = ''Infinity'' then (if neg then NInf else PInf)
         else
           (let ip = takeWhile isDigit u;
                r1 = dropWhile isDigit u;
                hasDot = (r1 \<noteq> [] \<and> hd r1 = CHR ''.'');
                fp = (if hasDot then takeWhile isDigit (tl r1) else []);
                r2 = (if hasDot then dropWhile isDigit (tl r1) else r1)
            in if ip = [] \<and> fp = [] then NaN
               else
                 (let m = real (digitsValue ip) + real (digitsValue fp) / 10 ^ length fp;
                      e = exponentPart r2;
                      v = (if 0 \<le> e then m * 10 ^ nat e else m / 10 ^ nat (- e))
                  in Fin (if neg then - v else v))))"

text \<open>The decimal rendering of an array index inside a template literal.\<close>

definition digitChar :: "nat \<Rightarrow> char" where
  "digitChar d = ''0123456789'' ! d"

function indexString :: "nat \<Rightarrow> string" where
  "indexString n = (if n < 10 then [digitChar n] else indexString (n div 10) @ [digitChar (n mod 10)])"
  by pat_completeness auto
termination
  by (relation "measure id") auto

declare indexString.simps [simp del]

section \<open>SnapPointCalculator\<close>

text \<open>
  \<open>type SnapPoint = number | string | { value: number | string; id: string }\<close>. The
  argument of \<open>parseSnapValue\<close> is a \<open>number | string\<close>.
\<close>

datatype SnapValue = NumberValue jsnum | StringValue string

datatype SnapPoint = BarePoint SnapValue | ObjectPoint SnapValue string

text \<open>\<open>interface SnapPointResolved { id; offset; relative }\<close>; the fields carry the
  prefix \<open>snap\<close> where the plain name is taken.\<close>

record SnapPointResolved =
  snapId :: string
  snapOffset :: jsnum
  relative :: bool

datatype Axis = Horizontal | Vertical

text \<open>\<open>Omit<SnapConfig, 'activeIndex'>\<close>, the argument of the constructor and of
  \<open>updateConfig\<close>.\<close>

record SnapConfig =
  points :: "SnapPoint list"
  configContainerSize :: jsnum
  axis :: Axis

text \<open>The global \<open>window\<close>, read by \<open>parseSnapValue\<close> for the viewport units.\<close>

record Window =
  innerHeight :: jsnum
  innerWidth :: jsnum

record SnapPointCalculator =
  resolvedPoints :: "SnapPointResolved list"
  containerSize :: jsnum

text \<open>The object \<open>{ index, offset, id }\<close> that the two queries return.\<close>

record SnapTarget =
  index :: jsnum
  offset :: jsnum
  ident :: string

definition isNumber :: "SnapValue \<Rightarrow> bool" where
  "isNumber v = (case v of NumberValue _ \<Rightarrow> True | StringValue _ \<Rightarrow> False)"

definition parseSnapValue :: "Window \<Rightarrow> jsnum \<Rightarrow> SnapValue \<Rightarrow> jsnum" where
  "parseSnapValue window csize v =
     (case v of
        NumberValue n \<Rightarrow> n * csize
      | StringValue str \<Rightarrow>
          if endsWith str ''px'' then parseFloat str
          else if endsWith str ''%'' then (parseFloat str / Fin 100) * csize
          else if endsWith str ''vh'' then (parseFloat str / Fin 100) * innerHeight window
          else if endsWith str ''vw'' then (parseFloat str / Fin 100) * innerWidth window
          else parseFloat str)"

definition resolvePoint :: "Window \<Rightarrow> jsnum \<Rightarrow> nat \<Rightarrow> SnapPoint \<Rightarrow> SnapPointResolved" where
  "resolvePoint window csize i point =
     (case point of
        ObjectPoint v name \<Rightarrow>
          \<lparr>snapId = name, snapOffset = parseSnapValue window csize v, relative = isNumber v\<rparr>
      | BarePoint v \<Rightarrow>
          \<lparr>snapId = ''snap-'' @ indexString i, snapOffset = parseSnapValue window csize v,
           relative = isNumber v\<rparr>)"

definition resolveSnapPoints :: "Window \<Rightarrow> jsnum \<Rightarrow> SnapPoint list \<Rightarrow> SnapPointResolved list" where
  "resolveSnapPoints window csize ps =
     map (\<lambda>(i, point). resolvePoint window csize i point) (List.enumerate 0 ps)"

text \<open>\<open>updateConfig\<close> stores the container size first and resolves the points against
  the stored size; the constructor is one call of it on the fresh object.\<close>

definition updateConfig :: "Window \<Rightarrow> SnapConfig \<Rightarrow> SnapPointCalculator \<Rightarrow> SnapPointCalculator" where
  "updateConfig window cfg calc =
     (let c1 = calc\<lparr>containerSize := configContainerSize cfg\<rparr>
      in c1\<lparr>resolvedPoints := resolveSnapPoints window (containerSize c1) (points cfg)\<rparr>)"

definition newCalculator :: "Window \<Rightarrow> SnapConfig \<Rightarrow> SnapPointCalculator" where
  "newCalculator window cfg = updateConfig window cfg \<lparr>resolvedPoints = [], containerSize = Fin 0\<rparr>"

text \<open>
  The \<open>forEach\<close> of \<open>findNearestSnapPoint\<close>: the pair \<open>(minDistance, nearestIndex)\<close> is
  threaded through the points, \<open>i\<close> being the index of the head of the remaining list.
\<close>

fun nearestScan :: "jsnum \<Rightarrow> SnapPointResolved list \<Rightarrow> nat \<Rightarrow> jsnum \<times> nat \<Rightarrow> jsnum \<times> nat" where
  "nearestScan currentOffset [] i acc = acc"
| "nearestScan currentOffset (point # rest) i (minDistance, nearestIndex) =
     (let distance = \<bar>snapOffset point - currentOffset\<bar>
      in nearestScan currentOffset rest (Suc i)
           (if distance < minDistance then (distance, i) else (minDistance, nearestIndex)))"

definition findNearestSnapPoint :: "SnapPointCalculator \<Rightarrow> jsnum \<Rightarrow> SnapTarget" where
  "findNearestSnapPoint calc currentOffset =
     (let nearestIndex = snd (nearestScan currentOffset (resolvedPoints calc) 0 (PInf, 0))
      in case js_index (resolvedPoints calc) (Fin (real nearestIndex)) of
           None \<Rightarrow> \<lparr>index = Fin 0, offset = Fin 0, ident = ''snap-0''\<rparr>
         | Some nearest \<Rightarrow>
             \<lparr>index = Fin (real nearestIndex), offset = snapOffset nearest, ident = snapId nearest\<rparr>)"

definition findNextSnapPoint ::
  "SnapPointCalculator \<Rightarrow> jsnum \<Rightarrow> jsnum \<Rightarrow> jsnum \<Rightarrow> SnapTarget option" where
  "findNextSnapPoint calc currentIndex velocity velocityThreshold =
     (let isMovingForward = (Fin 0 < velocity);
          hasSignificantVelocity = (velocityThreshold < \<bar>velocity\<bar>)
      in if \<not> hasSignificantVelocity then None
         else
           (let nextIndex =
                  (if isMovingForward
                   then Math_min (currentIndex + Fin 1) (Fin (real (length (resolvedPoints calc))) - Fin 1)
                   else Math_max (currentIndex - Fin 1) (Fin 0))
            in if js_eq nextIndex currentIndex then None
               else
                 (case js_index (resolvedPoints calc) nextIndex of
                    None \<Rightarrow> None
                  | Some next \<Rightarrow>
                      Some \<lparr>index = nextIndex, offset = snapOffset next, ident = snapId next\<rparr>)))"

text \<open>The default of the third parameter, \<open>velocityThreshold = 0.5\<close>.\<close>

definition defaultVelocityThreshold :: jsnum where
  "defaultVelocityThreshold = Fin (1 / 2)"

definition getSnapPoint :: "SnapPointCalculator \<Rightarrow> jsnum \<Rightarrow> SnapPointResolved option" where
  "getSnapPoint calc i = js_index (resolvedPoints calc) i"

definition getAllSnapPoints :: "SnapPointCalculator \<Rightarrow> SnapPointResolved list" where
  "getAllSnapPoints calc = resolvedPoints calc"

definition getSnapPointCount :: "SnapPointCalculator \<Rightarrow> nat" where
  "getSnapPointCount calc = length (resolvedPoints calc)"

section \<open>PointerTracker\<close>

record PointerEvent =
  clientX :: jsnum
  clientY :: jsnum
  timeStamp :: jsnum
  pointerId :: jsnum

datatype Direction = Up | Down | Left | Right

text \<open>\<open>interface GestureState\<close>; the direction \<open>null\<close> is \<open>None\<close>.\<close>

record GestureState =
  isDragging :: bool
  startX :: jsnum
  startY :: jsnum
  currentX :: jsnum
  currentY :: jsnum
  deltaX :: jsnum
  deltaY :: jsnum
  velocityX :: jsnum
  velocityY :: jsnum
  direction :: "Direction option"
  timestamp :: jsnum

text \<open>An entry \<open>{ x, y, time }\<close> of the history.\<close>

record Sample =
  sampleX :: jsnum
  sampleY :: jsnum
  sampleTime :: jsnum

record PointerTracker =
  state :: GestureState
  history :: "Sample list"

definition maxHistoryLength :: nat where
  "maxHistoryLength = 5"

definition getInitialState :: GestureState where
  "getInitialState =
     \<lparr>isDragging = False, startX = Fin 0, startY = Fin 0, currentX = Fin 0, currentY = Fin 0,
      deltaX = Fin 0, deltaY = Fin 0, velocityX = Fin 0, velocityY = Fin 0, direction = None,
      timestamp = Fin 0\<rparr>"

definition newPointerTracker :: PointerTracker where
  "newPointerTracker = \<lparr>state = getInitialState, history = []\<rparr>"

definition sampleOf :: "PointerEvent \<Rightarrow> Sample" where
  "sampleOf event = \<lparr>sampleX = clientX event, sampleY = clientY event, sampleTime = timeStamp event\<rparr>"

text \<open>Every method returns the gesture state it returns in the source, paired with the
  tracker after the call.\<close>

definition start :: "PointerEvent \<Rightarrow> PointerTracker \<Rightarrow> GestureState \<times> PointerTracker" where
  "start event t =
     (let st = getInitialState
            \<lparr>isDragging := True, startX := clientX event, startY := clientY event,
             currentX := clientX event, currentY := clientY event, timestamp := timeStamp event\<rparr>
      in (st, t\<lparr>state := st, history := [sampleOf event]\<rparr>))"

definition calculateVelocity :: "Sample list \<Rightarrow> jsnum \<times> jsnum" where
  "calculateVelocity h =
     (if length h < 2 then (Fin 0, Fin 0)
      else
        (case (js_index h (Fin (real (length h)) - Fin 1), js_index h (Fin 0)) of
           (Some latest, Some oldest) \<Rightarrow>
             (let timeDelta = sampleTime latest - sampleTime oldest
              in if js_eq timeDelta (Fin 0) then (Fin 0, Fin 0)
                 else ((sampleX latest - sampleX oldest) / timeDelta,
                       (sampleY latest - sampleY oldest) / timeDelta))
         | _ \<Rightarrow> (Fin 0, Fin 0)))"

definition getDirection :: "jsnum \<Rightarrow> jsnum \<Rightarrow> Direction option" where
  "getDirection dx dy =
     (let threshold = Fin 5
      in if \<bar>dx\<bar> < threshold \<and> \<bar>dy\<bar> < threshold then None
         else if \<bar>dy\<bar> < \<bar>dx\<bar> then (if Fin 0 < dx then Some Right else Some Left)
         else (if Fin 0 < dy then Some Down else Some Up))"

definition move :: "PointerEvent \<Rightarrow> PointerTracker \<Rightarrow> GestureState \<times> PointerTracker" where
  "move event t =
     (if \<not> isDragging (state t) then (state t, t)
      else
        (let dx = clientX event - startX (state t);
             dy = clientY event - startY (state t);
             pushed = history t @ [sampleOf event];
             h = (if maxHistoryLength < length pushed then tl pushed else pushed);
             (vx, vy) = calculateVelocity h;
             d = getDirection dx dy;
             st = (state t)
               \<lparr>currentX := clientX event, currentY := clientY event, deltaX := dx, deltaY := dy,
                velocityX := vx, velocityY := vy, direction := d, timestamp := timeStamp event\<rparr>
         in (st, t\<lparr>state := st, history := h\<rparr>)))"

text \<open>The method \<open>end\<close> of the source; \<open>end\<close> is a keyword here.\<close>

definition finish :: "PointerEvent \<Rightarrow> PointerTracker \<Rightarrow> GestureState \<times> PointerTracker" where
  "finish event t =
     (let (finalState, t1) = move event t;
          st = finalState\<lparr>isDragging := False\<rparr>
      in (st, t1\<lparr>state := st\<rparr>))"

definition reset :: "PointerTracker \<Rightarrow> PointerTracker" where
  "reset t = t\<lparr>state := getInitialState, history := []\<rparr>"

definition getState :: "PointerTracker \<Rightarrow> GestureState" where
  "getState t = state t"

text \<open>The calls a client can make on a tracker, and the tracker they leave when made in
  order on a new one: the reachable trackers.\<close>

datatype TrackerCall = CallStart PointerEvent | CallMove PointerEvent | CallEnd PointerEvent | CallReset

fun call :: "PointerTracker \<Rightarrow> TrackerCall \<Rightarrow> PointerTracker" where
  "call t (CallStart event) = snd (start event t)"
| "call t (CallMove event) = snd (move event t)"
| "call t (CallEnd event) = snd (finish event t)"
| "call t CallReset = reset t"

definition trackerAfter :: "TrackerCall list \<Rightarrow> PointerTracker" where
  "trackerAfter calls = foldl call newPointerTracker calls"

section \<open>SpringAnimation\<close>

record SpringConfig =
  stiffness :: jsnum
  damping :: jsnum
  mass :: jsnum
  precision :: jsnum

text \<open>\<open>SPRING_PRESETS\<close>.\<close>

definition gentle :: SpringConfig where
  "gentle = \<lparr>stiffness = Fin 120, damping = Fin 14, mass = Fin 1, precision = Fin (1 / 100)\<rparr>"

definition wobbly :: SpringConfig where
  "wobbly = \<lparr>stiffness = Fin 180, damping = Fin 12, mass = Fin 1, precision = Fin (1 / 100)\<rparr>"

definition stiff :: SpringConfig where
  "stiff = \<lparr>stiffness = Fin 210, damping = Fin 20, mass = Fin 1, precision = Fin (1 / 100)\<rparr>"

definition slow :: SpringConfig where
  "slow = \<lparr>stiffness = Fin 280, damping = Fin 60, mass = Fin 1, precision = Fin (1 / 100)\<rparr>"

definition molasses :: SpringConfig where
  "molasses = \<lparr>stiffness = Fin 280, damping = Fin 120, mass = Fin 1, precision = Fin (1 / 100)\<rparr>"

text \<open>A call of one of the two optional handlers, \<open>onUpdate(value, velocity)\<close> or
  \<open>onComplete()\<close>.\<close>

datatype SpringEvent = OnUpdate jsnum jsnum | OnComplete

text \<open>
  The fields of the class, followed by what the class acts on outside itself: the frame
  requests that the browser holds for this instance (\<open>requestAnimationFrame\<close> appends a
  fresh handle, \<open>cancelAnimationFrame\<close> removes one, a frame runs the oldest), the next
  fresh handle, and the calls of the two optional handlers so far, oldest first (a call is
  recorded whether or not a handler is set).
\<close>

record SpringAnimation =
  currentValue :: jsnum
  currentVelocity :: jsnum
  targetValue :: jsnum
  config :: SpringConfig
  rafId :: "nat option"
  lastTime :: jsnum
  isAnimating :: bool
  scheduled :: "nat list"
  nextHandle :: nat
  emitted :: "SpringEvent list"

definition newSpringAnimation :: "jsnum \<Rightarrow> SpringConfig \<Rightarrow> SpringAnimation" where
  "newSpringAnimation initialValue cfg =
     \<lparr>currentValue = initialValue, currentVelocity = Fin 0, targetValue = initialValue,
      config = cfg, rafId = None, lastTime = Fin 0, isAnimating = False,
      scheduled = [], nextHandle = 1, emitted = []\<rparr>"

definition requestAnimationFrame :: "SpringAnimation \<Rightarrow> nat \<times> SpringAnimation" where
  "requestAnimationFrame s =
     (nextHandle s, s\<lparr>scheduled := scheduled s @ [nextHandle s], nextHandle := Suc (nextHandle s)\<rparr>)"

definition cancelAnimationFrame :: "nat \<Rightarrow> SpringAnimation \<Rightarrow> SpringAnimation" where
  "cancelAnimationFrame h s = s\<lparr>scheduled := removeAll h (scheduled s)\<rparr>"

text \<open>\<open>start\<close> of the class; \<open>now\<close> is what \<open>performance.now()\<close> returns.\<close>

definition startLoop :: "jsnum \<Rightarrow> SpringAnimation \<Rightarrow> SpringAnimation" where
  "startLoop now s =
     (let s1 = s\<lparr>isAnimating := True\<rparr>;
          s2 = s1\<lparr>lastTime := now\<rparr>;
          (h, s3) = requestAnimationFrame s2
      in s3\<lparr>rafId := Some h\<rparr>)"

definition setTarget :: "jsnum \<Rightarrow> jsnum \<Rightarrow> jsnum \<Rightarrow> SpringAnimation \<Rightarrow> SpringAnimation" where
  "setTarget target velocity now s =
     (let s1 = s\<lparr>targetValue := target\<rparr>;
          s2 = s1\<lparr>currentVelocity := velocity\<rparr>
      in if \<not> isAnimating s2 then startLoop now s2 else s2)"

text \<open>The default of the second parameter, \<open>velocity = 0\<close>.\<close>

definition setTargetDefault :: "jsnum \<Rightarrow> jsnum \<Rightarrow> SpringAnimation \<Rightarrow> SpringAnimation" where
  "setTargetDefault target now s = setTarget target (Fin 0) now s"

definition tick :: "jsnum \<Rightarrow> SpringAnimation \<Rightarrow> SpringAnimation" where
  "tick currentTime s =
     (let deltaTime = Math_min (currentTime - lastTime s) (Fin 64) / Fin 1000;
          s1 = s\<lparr>lastTime := currentTime\<rparr>;
          springForce = (- stiffness (config s1)) * (currentValue s1 - targetValue s1);
          dampingForce = (- damping (config s1)) * currentVelocity s1;
          acceleration = (springForce + dampingForce) / mass (config s1);
          s2 = s1\<lparr>currentVelocity := currentVelocity s1 + acceleration * deltaTime\<rparr>;
          s3 = s2\<lparr>currentValue := currentValue s2 + currentVelocity s2 * deltaTime\<rparr>;
          isAtTarget = (\<bar>currentValue s3 - targetValue s3\<bar> < precision (config s1));
          isStill = (\<bar>currentVelocity s3\<bar> < precision (config s1))
      in if isAtTarget \<and> isStill
         then s3\<lparr>currentValue := targetValue s3, currentVelocity := Fin 0, isAnimating := False,
                 emitted := emitted s3 @ [OnComplete]\<rparr>
         else
           (let s4 = s3\<lparr>emitted := emitted s3 @ [OnUpdate (currentValue s3) (currentVelocity s3)]\<rparr>;
                (h, s5) = requestAnimationFrame s4
            in s5\<lparr>rafId := Some h\<rparr>))"

definition stop :: "SpringAnimation \<Rightarrow> SpringAnimation" where
  "stop s =
     (let s1 = (case rafId s of
                  Some h \<Rightarrow> (cancelAnimationFrame h s)\<lparr>rafId := None\<rparr>
                | None \<Rightarrow> s)
      in s1\<lparr>isAnimating := False\<rparr>)"

definition getValue :: "SpringAnimation \<Rightarrow> jsnum" where
  "getValue s = currentValue s"

definition getVelocity :: "SpringAnimation \<Rightarrow> jsnum" where
  "getVelocity s = currentVelocity s"

text \<open>\<open>Partial<SpringConfig>\<close>: every field may be absent.\<close>

record SpringConfigPatch =
  newStiffness :: "jsnum option"
  newDamping :: "jsnum option"
  newMass :: "jsnum option"
  newPrecision :: "jsnum option"

definition setConfig :: "SpringConfigPatch \<Rightarrow> SpringAnimation \<Rightarrow> SpringAnimation" where
  "setConfig patch s =
     s\<lparr>config :=
         \<lparr>stiffness = (case newStiffness patch of Some x \<Rightarrow> x | None \<Rightarrow> stiffness (config s)),
          damping = (case newDamping patch of Some x \<Rightarrow> x | None \<Rightarrow> damping (config s)),
          mass = (case newMass patch of Some x \<Rightarrow> x | None \<Rightarrow> mass (config s)),
          precision = (case newPrecision patch of Some x \<Rightarrow> x | None \<Rightarrow> precision (config s))\<rparr>\<rparr>"

text \<open>A display frame at time \<open>t\<close>: the browser takes the oldest request of the instance
  off its queue and calls \<open>tick(t)\<close>; nothing happens when the queue is empty.\<close>

definition frame :: "jsnum \<Rightarrow> SpringAnimation \<Rightarrow> SpringAnimation" where
  "frame t s = (case scheduled s of [] \<Rightarrow> s | h # hs \<Rightarrow> tick t (s\<lparr>scheduled := hs\<rparr>))"

text \<open>
  The tick loop: frames come at the times \<open>clock 0, clock 1, ...\<close> for as long as a request is
  pending. The result is the number of the first frame that finds nothing to run, with the
  animation as it is then, and \<open>None\<close> when the loop runs forever.
\<close>

partial_function (option) animate ::
  "(nat \<Rightarrow> jsnum) \<Rightarrow> nat \<Rightarrow> SpringAnimation \<Rightarrow> (nat \<times> SpringAnimation) option" where
  "animate clock n s =
     (if scheduled s = [] then Some (n, s) else animate clock (Suc n) (frame (clock n) s))"

text \<open>The same loop with fuel: at most \<open>fuel\<close> frames are run.\<close>

fun framesFrom :: "(nat \<Rightarrow> jsnum) \<Rightarrow> nat \<Rightarrow> nat \<Rightarrow> SpringAnimation \<Rightarrow> nat \<times> SpringAnimation" where
  "framesFrom clock 0 n s = (n, s)"
| "framesFrom clock (Suc fuel) n s =
     (if scheduled s = [] then (n, s) else framesFrom clock fuel (Suc n) (frame (clock n) s))"

text \<open>The calls a client and the browser can make on an animation (a frame is the browser
  running the pending tick), and the animation they leave when made in order on a new one:
  the reachable animations.\<close>

datatype SpringCall =
  CallSetTarget jsnum jsnum jsnum | CallSetConfig SpringConfigPatch | CallStop | Frame jsnum

fun springCall :: "SpringAnimation \<Rightarrow> SpringCall \<Rightarrow> SpringAnimation" where
  "springCall s (CallSetTarget target velocity now) = setTarget target velocity now s"
| "springCall s (CallSetConfig patch) = setConfig patch s"
| "springCall s CallStop = stop s"
| "springCall s (Frame t) = frame t s"

definition springAfter :: "jsnum \<Rightarrow> SpringConfig \<Rightarrow> SpringCall list \<Rightarrow> SpringAnimation" where
  "springAfter initialValue cfg calls = foldl springCall (newSpringAnimation initialValue cfg) calls"

text \<open>The number of \<open>onComplete\<close> calls in a log.\<close>

definition completions :: "SpringEvent list \<Rightarrow> nat" where
  "completions evs = length (filter (\<lambda>e. e = OnComplete) evs)"

text \<open>Frames that come every \<open>period\<close> milliseconds, the first one a period after time 0.\<close>

definition everyMs :: "real \<Rightarrow> nat \<Rightarrow> jsnum" where
  "everyMs period n = Fin (period * real (Suc n))"

text \<open>The same frames after a call made at the time \<open>now\<close>.\<close>

definition framesAfter :: "real \<Rightarrow> real \<Rightarrow> nat \<Rightarrow> jsnum" where
  "framesAfter now period n = Fin (now + period * real (Suc n))"

section \<open>Notions used to state the properties\<close>

text \<open>The \<open>number | string\<close> of a descriptor: the descriptor itself, or the \<open>value\<close> of an
  object descriptor; and the number it stands for before scaling.\<close>

definition descriptorValue :: "SnapPoint \<Rightarrow> SnapValue" where
  "descriptorValue p = (case p of BarePoint v \<Rightarrow> v | ObjectPoint v name \<Rightarrow> v)"

definition descriptorNumber :: "SnapPoint \<Rightarrow> jsnum" where
  "descriptorNumber p =
     (case descriptorValue p of NumberValue n \<Rightarrow> n | StringValue str \<Rightarrow> parseFloat str)"

fun finiteNonNegative :: "jsnum \<Rightarrow> bool" where
  "finiteNonNegative (Fin r) = (0 \<le> r)"
| "finiteNonNegative PInf = False"
| "finiteNonNegative NInf = False"
| "finiteNonNegative NaN = False"

text \<open>The distance of a resolved point from a query offset, as \<open>findNearestSnapPoint\<close>
  computes it.\<close>

definition distanceTo :: "jsnum \<Rightarrow> SnapPointResolved \<Rightarrow> jsnum" where
  "distanceTo q p = \<bar>snapOffset p - q\<bar>"

text \<open>
  The invariant of the scan after the first \<open>k\<close> points: none of them is strictly nearer
  than \<open>minDistance\<close>; and either nothing has been recorded yet (the initial pair), or
  \<open>nearestIndex\<close> is one of them, \<open>minDistance\<close> is its distance, and no earlier point is
  as near.
\<close>

definition scanInv :: "jsnum \<Rightarrow> SnapPointResolved list \<Rightarrow> nat \<Rightarrow> jsnum \<times> nat \<Rightarrow> bool" where
  "scanInv q pts k acc =
     (case acc of (md, ni) \<Rightarrow>
        (\<forall>j<k. \<not> distanceTo q (pts ! j) < md) \<and>
        ((md = PInf \<and> ni = 0) \<or>
         (ni < k \<and> md = distanceTo q (pts ! ni) \<and> (\<forall>j<ni. \<not> distanceTo q (pts ! j) \<le> md))))"

text \<open>The velocity pair of a gesture state, and the velocity that the specification
  describes for a retained history: zero with fewer than two samples or a zero time span
  between the oldest and the newest, their slope otherwise.\<close>

definition velocityOf :: "GestureState \<Rightarrow> jsnum \<times> jsnum" where
  "velocityOf st = (velocityX st, velocityY st)"

definition slopeOf :: "Sample list \<Rightarrow> jsnum \<times> jsnum" where
  "slopeOf h =
     (if length h < 2 \<or> sampleTime (last h) - sampleTime (hd h) = Fin 0 then (Fin 0, Fin 0)
      else ((sampleX (last h) - sampleX (hd h)) / (sampleTime (last h) - sampleTime (hd h)),
            (sampleY (last h) - sampleY (hd h)) / (sampleTime (last h) - sampleTime (hd h))))"

text \<open>The invariant of a tracker: the stored velocity is the one of the stored history.\<close>

definition velocityInv :: "PointerTracker \<Rightarrow> bool" where
  "velocityInv t = (velocityOf (state t) = calculateVelocity (history t))"

text \<open>
  The integration of one tick before the check for completion: the clamped step in
  seconds, the new velocity and the new value; and whether the tick completes, which is
  when both the new distance to the target and the new speed are under the precision.
\<close>

definition stepDelta :: "jsnum \<Rightarrow> SpringAnimation \<Rightarrow> jsnum" where
  "stepDelta t s = Math_min (t - lastTime s) (Fin 64) / Fin 1000"

definition stepVelocity :: "jsnum \<Rightarrow> SpringAnimation \<Rightarrow> jsnum" where
  "stepVelocity t s =
     (let springForce = (- stiffness (config s)) * (currentValue s - targetValue s);
          dampingForce = (- damping (config s)) * currentVelocity s;
          acceleration = (springForce + dampingForce) / mass (config s)
      in currentVelocity s + acceleration * stepDelta t s)"

definition stepValue :: "jsnum \<Rightarrow> SpringAnimation \<Rightarrow> jsnum" where
  "stepValue t s = currentValue s + stepVelocity t s * stepDelta t s"

definition settles :: "jsnum \<Rightarrow> SpringAnimation \<Rightarrow> bool" where
  "settles t s =
     (\<bar>stepValue t s - targetValue s\<bar> < precision (config s) \<and>
      \<bar>stepVelocity t s\<bar> < precision (config s))"

text \<open>An animation whose loop is going: the flag is set and one tick is pending.\<close>

definition running :: "SpringAnimation \<Rightarrow> bool" where
  "running s = (isAnimating s \<and> (\<exists>h. scheduled s = [h]))"

text \<open>What a loop that started at frame \<open>n\<close> from \<open>s\<close> has reached when it ends at frame
  \<open>m\<close> in \<open>s'\<close>.\<close>

definition reached :: "SpringAnimation \<Rightarrow> nat \<Rightarrow> nat \<times> SpringAnimation \<Rightarrow> bool" where
  "reached s n y =
     (case y of (m, s') \<Rightarrow>
        n < m \<and> currentValue s' = targetValue s \<and> currentVelocity s' = Fin 0 \<and>
        \<not> isAnimating s' \<and> scheduled s' = [] \<and>
        completions (emitted s') = Suc (completions (emitted s)))"

text \<open>The invariant of the frame queue: either nothing is pending and the animation is
  not running, or it is running and the one pending request is the one \<open>rafId\<close> holds.\<close>

definition queueInv :: "SpringAnimation \<Rightarrow> bool" where
  "queueInv s =
     ((\<not> isAnimating s \<and> scheduled s = []) \<or>
      (isAnimating s \<and> (\<exists>h. scheduled s = [h] \<and> rafId s = Some h)))"

text \<open>
  The integration of one tick on finite numbers, as a map on the pair (value, velocity):
  the new velocity is \<open>velocity + (-k * (value - target) + -c * velocity) / m * dt\<close> and the new
  value is \<open>value + velocity' * dt\<close>, for the stiffness \<open>k\<close>, the damping \<open>c\<close>, the mass
  \<open>m\<close> and the step \<open>dt\<close> in seconds.
\<close>

definition springStep :: "real \<Rightarrow> real \<Rightarrow> real \<Rightarrow> real \<Rightarrow> real \<Rightarrow> real \<times> real \<Rightarrow> real \<times> real" where
  "springStep k c m dt target z =
     (let v' = snd z + (- k * (fst z - target) + - c * snd z) / m * dt
      in (fst z + v' * dt, v'))"

text \<open>
  The steps under which this integration is stable: with \<open>b = c * dt / m\<close> and
  \<open>q = k * dt * dt / m\<close>, one tick maps the distance to the target and the velocity by a
  matrix of determinant \<open>1 - b\<close> and trace \<open>2 - b - q\<close>, whose eigenvalues lie inside the
  unit circle exactly when \<open>b < 2\<close> and \<open>q + 2 * b < 4\<close> (for positive \<open>k\<close>, \<open>c\<close>, \<open>m\<close>, \<open>dt\<close>).
\<close>

definition stableStep :: "real \<Rightarrow> real \<Rightarrow> real \<Rightarrow> real \<Rightarrow> bool" where
  "stableStep k c m dt = (c * dt / m < 2 \<and> k * dt * dt / m + 2 * (c * dt / m) < 4)"

text \<open>A pair (value, velocity) that a tick completes on: both the distance to the target
  and the speed are under the precision.\<close>

definition nearRest :: "real \<Rightarrow> real \<Rightarrow> real \<times> real \<Rightarrow> bool" where
  "nearRest p target z = (\<bar>fst z - target\<bar> < p \<and> \<bar>snd z\<bar> < p)"

text \<open>
  An animation before frame \<open>n\<close> of the frames that come every \<open>period\<close> after \<open>now\<close>, when no
  tick has completed yet: the loop is going, the last tick was at \<open>now + period * n\<close>, and
  the value and velocity are those of \<open>n\<close> integration steps of \<open>min(period, 64) / 1000\<close>
  seconds from the pair \<open>z\<close>.
\<close>

definition following ::
  "real \<Rightarrow> real \<Rightarrow> real \<Rightarrow> real \<Rightarrow> real \<Rightarrow> real \<Rightarrow> real \<Rightarrow> real \<times> real \<Rightarrow> nat \<Rightarrow>
   SpringAnimation \<Rightarrow> bool" where
  "following k c m p now period target z n s =
     (running s \<and>
      config s = \<lparr>stiffness = Fin k, damping = Fin c, mass = Fin m, precision = Fin p\<rparr> \<and>
      targetValue s = Fin target \<and> lastTime s = Fin (now + period * real n) \<and>
      currentValue s = Fin (fst ((springStep k c m (min period 64 / 1000) target ^^ n) z)) \<and>
      currentVelocity s = Fin (snd ((springStep k c m (min period 64 / 1000) target ^^ n) z)))"

text \<open>A configuration with no spring and no damper, and the animations towards 100 that
  it never moves.\<close>

definition limp :: SpringConfig where
  "limp = \<lparr>stiffness = Fin 0, damping = Fin 0, mass = Fin 1, precision = Fin (1 / 100)\<rparr>"

definition stuck :: "SpringAnimation \<Rightarrow> bool" where
  "stuck s =
     (currentValue s = Fin 0 \<and> currentVelocity s = Fin 0 \<and> targetValue s = Fin 100 \<and>
      config s = limp \<and> (\<exists>h. scheduled s = [h]) \<and> (\<exists>r. lastTime s = Fin r))"

text \<open>The molasses animation towards 100 before frame \<open>n\<close> of a clock of 64 ms: at rest at
  0 before the first frame; afterwards on one side of the target and moving away from it
  at a speed of at least 1.\<close>

definition diverging :: "nat \<Rightarrow> SpringAnimation \<Rightarrow> bool" where
  "diverging n s =
     (config s = molasses \<and> targetValue s = Fin 100 \<and> (\<exists>h. scheduled s = [h]) \<and>
      lastTime s = Fin (64 * real n) \<and>
      (\<exists>x v. currentValue s = Fin x \<and> currentVelocity s = Fin v \<and>
         ((n = 0 \<and> x = 0 \<and> v = 0) \<or> (100 < x \<and> 1 \<le> v) \<or> (x < 100 \<and> v \<le> - 1))))"

subsection \<open>Example inputs\<close>

definition exampleWindow :: Window where
  "exampleWindow = \<lparr>innerHeight = Fin 800, innerWidth = Fin 1200\<rparr>"

definition ratioPoints :: "SnapPoint list" where
  "ratioPoints =
     [BarePoint (NumberValue (Fin 0)), BarePoint (NumberValue (Fin (1 / 2))),
      BarePoint (NumberValue (Fin 1))]"

definition percentPoints :: "SnapPoint list" where
  "percentPoints = [BarePoint (StringValue ''25%''), BarePoint (StringValue ''75%'')]"

definition pixelPoints :: "SnapPoint list" where
  "pixelPoints = [BarePoint (StringValue ''100px''), BarePoint (StringValue ''200px'')]"

definition negativePoints :: "SnapPoint list" where
  "negativePoints = [BarePoint (NumberValue (Fin (- (1 / 2)))), BarePoint (StringValue ''-100px'')]"

definition mixedConfig :: SnapConfig where
  "mixedConfig =
     \<lparr>points =
        [BarePoint (NumberValue (Fin (1 / 2))), BarePoint (StringValue ''25%''),
         ObjectPoint (StringValue ''50vh'') ''mid'', BarePoint (StringValue ''100px'')],
      configContainerSize = Fin 400, axis = Vertical\<rparr>"

text \<open>The calculator of the test suite: \<open>[0, 0.5, 1]\<close> over a container of 400.\<close>

definition exampleCalculator :: SnapPointCalculator where
  "exampleCalculator =
     newCalculator exampleWindow
       \<lparr>points = ratioPoints, configContainerSize = Fin 400, axis = Vertical\<rparr>"

definition emptyCalculator :: SnapPointCalculator where
  "emptyCalculator =
     newCalculator exampleWindow \<lparr>points = [], configContainerSize = Fin 400, axis = Vertical\<rparr>"

text \<open>The gesture of the test suite: down at (100, 200) at time 1000, a move to
  (150, 250) at time 1050.\<close>

definition pointerAt :: "real \<Rightarrow> real \<Rightarrow> real \<Rightarrow> PointerEvent" where
  "pointerAt px py t = \<lparr>clientX = Fin px, clientY = Fin py, timeStamp = Fin t, pointerId = Fin 1\<rparr>"

definition exampleCalls :: "TrackerCall list" where
  "exampleCalls = [CallStart (pointerAt 100 200 1000), CallMove (pointerAt 150 250 1050)]"

text \<open>Animations of the presets, started from rest at 0 at time 0.\<close>

definition stiffStart :: SpringAnimation where
  "stiffStart = setTargetDefault (Fin 100) (Fin 0) (newSpringAnimation (Fin 0) stiff)"

definition settleStart :: SpringAnimation where
  "settleStart = setTargetDefault (Fin (1 / 1000)) (Fin 0) (newSpringAnimation (Fin 0) gentle)"

definition limpStart :: SpringAnimation where
  "limpStart = setTargetDefault (Fin 100) (Fin 0) (newSpringAnimation (Fin 0) limp)"

definition molassesStart :: SpringAnimation where
  "molassesStart = setTargetDefault (Fin 100) (Fin 0) (newSpringAnimation (Fin 0) molasses)"

definition slowStart :: SpringAnimation where
  "slowStart = setTargetDefault (Fin (1 / 400)) (Fin 0) (newSpringAnimation (Fin 0) slow)"

definition stiffCalls :: "SpringCall list" where
  "stiffCalls = [CallSetTarget (Fin 100) (Fin 0) (Fin 0), Frame (Fin 64)]"

section \<open>Facts about numbers and arrays\<close>

lemma jsnum_less_trans: "(a::jsnum) < b \<Longrightarrow> b < c \<Longrightarrow> a < c"
  by (cases a; cases b; cases c) auto

lemma jsnum_less_irrefl: "\<not> (a::jsnum) < a"
  by (cases a) auto

lemma jsnum_less_asym: "(a::jsnum) < b \<Longrightarrow> \<not> b < a"
  by (cases a; cases b) auto

lemma jsnum_minus_Fin [simp]: "Fin a - Fin b = Fin (a - b)"
  by (simp add: minus_jsnum_def)

lemma jsnum_le_Fin [simp]: "(Fin a \<le> Fin b) = (a \<le> b)"
  by (auto simp: less_eq_jsnum_def)

lemma jsnum_not_less_le: "a \<noteq> NaN \<Longrightarrow> b \<noteq> NaN \<Longrightarrow> \<not> (a::jsnum) < b \<Longrightarrow> b \<le> a"
  by (cases a; cases b) (auto simp: less_eq_jsnum_def)

lemma not_less_PInf_cases: "\<not> a < PInf \<Longrightarrow> a = PInf \<or> a = NaN"
  by (cases a) auto

lemma js_index_nat: "js_index xs (Fin (real i)) = (if i < length xs then Some (xs ! i) else None)"
  by simp

lemma js_index_Some_iff:
  "(js_index xs x = Some y) = (\<exists>i<length xs. x = Fin (real i) \<and> y = xs ! i)"
proof (cases x)
  case (Fin r)
  show ?thesis
  proof
    assume h: "js_index xs x = Some y"
    with Fin have r: "0 \<le> r" "r < real (length xs)" "real_of_int \<lfloor>r\<rfloor> = r" "y = xs ! nat \<lfloor>r\<rfloor>"
      by (auto split: if_splits)
    have a: "real (nat \<lfloor>r\<rfloor>) = r" using r by simp
    have b: "nat \<lfloor>r\<rfloor> < length xs" using r by linarith
    from Fin a have "x = Fin (real (nat \<lfloor>r\<rfloor>))" by simp
    with b r(4) show "\<exists>i<length xs. x = Fin (real i) \<and> y = xs ! i" by blast
  next
    assume "\<exists>i<length xs. x = Fin (real i) \<and> y = xs ! i"
    then show "js_index xs x = Some y" by auto
  qed
qed auto

section \<open>Resolving snap points\<close>

lemmas parse_defs = parseFloat_def isWhiteSpace_def isDigit_def digitsValue_def isSign_def
  exponentPart_def endsWith_def

lemmas resolve_defs = updateConfig_def resolveSnapPoints_def enumerate_eq_zip resolvePoint_def
  parseSnapValue_def isNumber_def

lemma endsWith_last: "endsWith s suf \<Longrightarrow> suf \<noteq> [] \<Longrightarrow> last s = last suf"
  unfolding endsWith_def
  by (metis diff_less last_drop length_greater_0_conv less_le_trans)

lemma suffixes_exclusive:
  "endsWith s ''px'' \<Longrightarrow> \<not> endsWith s ''%'' \<and> \<not> endsWith s ''vh'' \<and> \<not> endsWith s ''vw''"
  "endsWith s ''%'' \<Longrightarrow> \<not> endsWith s ''px'' \<and> \<not> endsWith s ''vh'' \<and> \<not> endsWith s ''vw''"
  "endsWith s ''vh'' \<Longrightarrow> \<not> endsWith s ''px'' \<and> \<not> endsWith s ''%'' \<and> \<not> endsWith s ''vw''"
  "endsWith s ''vw'' \<Longrightarrow> \<not> endsWith s ''px'' \<and> \<not> endsWith s ''%'' \<and> \<not> endsWith s ''vh''"
  by (auto dest!: endsWith_last)

lemma of_char_digitChar: "d < 10 \<Longrightarrow> of_char (digitChar d) = (48 + d :: nat)"
proof -
  assume "d < 10"
  then have "d \<in> {0, 1, 2, 3, 4, 5, 6, 7, 8, 9}" by auto
  then show ?thesis by (auto simp: digitChar_def)
qed

lemma digitsValue_snoc: "digitsValue (ds @ [c]) = 10 * digitsValue ds + (of_char c - 48)"
  by (simp add: digitsValue_def)

lemma indexString_decimal: "digitsValue (indexString n) = n"
proof (induction n rule: indexString.induct)
  case (1 n)
  show ?case
  proof (cases "n < 10")
    case True
    then show ?thesis
      by (subst indexString.simps) (simp add: digitsValue_def of_char_digitChar)
  next
    case False
    with 1 have "digitsValue (indexString (n div 10)) = n div 10" by simp
    with False show ?thesis
      by (subst indexString.simps) (simp add: digitsValue_snoc of_char_digitChar)
  qed
qed

lemma indexString_digits: "\<forall>c\<in>set (indexString n). isDigit c"
proof (induction n rule: indexString.induct)
  case (1 n)
  have d: "isDigit (digitChar k)" if "k < 10" for k
  proof -
    from that have "k \<in> {0, 1, 2, 3, 4, 5, 6, 7, 8, 9}" by auto
    then show ?thesis by (auto simp: digitChar_def isDigit_def)
  qed
  show ?case
  proof (cases "n < 10")
    case True
    then show ?thesis by (subst indexString.simps) (simp add: d)
  next
    case False
    with 1 show ?thesis by (subst indexString.simps) (simp add: d)
  qed
qed

lemma indexString_all_digits: "list_all isDigit (indexString n)"
  by (simp add: list_all_iff indexString_digits)

lemma resolveSnapPoints_length [simp]: "length (resolveSnapPoints w cs ps) = length ps"
  by (simp add: resolveSnapPoints_def)

lemma resolveSnapPoints_nth:
  "i < length ps \<Longrightarrow> resolveSnapPoints w cs ps ! i = resolvePoint w cs i (ps ! i)"
  by (simp add: resolveSnapPoints_def nth_enumerate_eq)

lemma parseSnapValue_number: "parseSnapValue w cs (NumberValue n) = n * cs"
  by (simp add: parseSnapValue_def)

lemma parseSnapValue_string:
  "parseSnapValue w cs (StringValue str) =
     (if endsWith str ''px'' then parseFloat str
      else if endsWith str ''%'' then parseFloat str / Fin 100 * cs
      else if endsWith str ''vh'' then parseFloat str / Fin 100 * innerHeight w
      else if endsWith str ''vw'' then parseFloat str / Fin 100 * innerWidth w
      else parseFloat str)"
  by (simp add: parseSnapValue_def)

lemma resolvePoint_offset:
  "snapOffset (resolvePoint w cs i p) = parseSnapValue w cs (descriptorValue p)"
  "relative (resolvePoint w cs i p) = isNumber (descriptorValue p)"
  by (cases p; simp add: resolvePoint_def descriptorValue_def)+

lemma resolvePoint_id:
  "snapId (resolvePoint w cs i (BarePoint v)) = ''snap-'' @ indexString i"
  "snapId (resolvePoint w cs i (ObjectPoint v name)) = name"
  by (simp_all add: resolvePoint_def)

lemma updateConfig_fields:
  "resolvedPoints (updateConfig w cfg calc) = resolveSnapPoints w (configContainerSize cfg) (points cfg)"
  "containerSize (updateConfig w cfg calc) = configContainerSize cfg"
  by (simp_all add: updateConfig_def)

lemma parse_examples:
  "parseFloat ''25%'' = Fin 25" "parseFloat ''75%'' = Fin 75"
  "parseFloat ''100px'' = Fin 100" "parseFloat ''200px'' = Fin 200"
  "parseFloat ''50vh'' = Fin 50" "parseFloat ''-100px'' = Fin (- 100)"
  by (simp_all add: parse_defs)

lemma exampleCalculator_points:
  "resolvedPoints exampleCalculator =
     [\<lparr>snapId = ''snap-0'', snapOffset = Fin 0, relative = True\<rparr>,
      \<lparr>snapId = ''snap-1'', snapOffset = Fin 200, relative = True\<rparr>,
      \<lparr>snapId = ''snap-2'', snapOffset = Fin 400, relative = True\<rparr>]"
  by (simp add: exampleCalculator_def newCalculator_def ratioPoints_def resolve_defs
      indexString.simps digitChar_def)

lemma ratio_example:
  "map snapOffset (resolvedPoints (updateConfig w
      \<lparr>points = ratioPoints, configContainerSize = Fin 400, axis = a\<rparr> calc)) =
   [Fin 0, Fin 200, Fin 400]"
  by (simp add: ratioPoints_def resolve_defs)

lemma percent_example:
  "map snapOffset (resolvedPoints (updateConfig w
      \<lparr>points = percentPoints, configContainerSize = Fin 400, axis = a\<rparr> calc)) =
   [Fin 100, Fin 300]"
  by (simp add: percentPoints_def resolve_defs parse_examples endsWith_def)

lemma pixel_example:
  "map snapOffset (resolvedPoints (updateConfig w
      \<lparr>points = pixelPoints, configContainerSize = cs, axis = a\<rparr> calc)) =
   [Fin 100, Fin 200]"
  by (simp add: pixelPoints_def resolve_defs parse_examples endsWith_def)

lemma resolved_number:
  "i < length (points cfg) \<Longrightarrow> descriptorValue (points cfg ! i) = NumberValue n \<Longrightarrow>
   snapOffset (resolvedPoints (updateConfig w cfg calc) ! i) = n * configContainerSize cfg \<and>
   relative (resolvedPoints (updateConfig w cfg calc) ! i)"
  by (simp add: updateConfig_fields resolveSnapPoints_nth resolvePoint_offset
      parseSnapValue_number isNumber_def)

lemma resolved_string:
  "i < length (points cfg) \<Longrightarrow> descriptorValue (points cfg ! i) = StringValue str \<Longrightarrow>
   \<not> relative (resolvedPoints (updateConfig w cfg calc) ! i) \<and>
   snapOffset (resolvedPoints (updateConfig w cfg calc) ! i) =
     parseSnapValue w (configContainerSize cfg) (StringValue str)"
  by (simp add: updateConfig_fields resolveSnapPoints_nth resolvePoint_offset isNumber_def)

lemma resolved_id:
  "i < length (points cfg) \<Longrightarrow> points cfg ! i = BarePoint v \<Longrightarrow>
   snapId (resolvedPoints (updateConfig w cfg calc) ! i) = ''snap-'' @ indexString i"
  "i < length (points cfg) \<Longrightarrow> points cfg ! i = ObjectPoint v name \<Longrightarrow>
   snapId (resolvedPoints (updateConfig w cfg calc) ! i) = name"
  by (simp_all add: updateConfig_fields resolveSnapPoints_nth resolvePoint_id)

text \<open>
  Claim C1. \<open>updateConfig\<close> resolves the descriptors in order, one resolved point per
  descriptor. A number \<open>n\<close> (bare, or the value of an object) gives the offset
  \<open>n * containerSize\<close> with \<open>relative = true\<close>; a string gives \<open>relative = false\<close> and, by its
  suffix, its parsed number (\<open>px\<close>), the parsed number over 100 times the container size
  (\<open>%\<close>), times the viewport height (\<open>vh\<close>) or width (\<open>vw\<close>), or its parsed number when it
  has none of the four suffixes. A descriptor that is not an object gets the id
  \<open>snap-<index>\<close>, the index in decimal digits; an object keeps its own id. In particular \<open>[0, 0.5, 1]\<close> over 400 gives
  the offsets \<open>[0, 200, 400]\<close>, \<open>['25%', '75%']\<close> over 400 gives \<open>[100, 300]\<close>, and
  \<open>['100px', '200px']\<close> gives \<open>[100, 200]\<close> over every container size.
\<close>

theorem updateConfig_resolves_descriptors:
  "(let rp = resolvedPoints (updateConfig w cfg calc); ps = points cfg; cs = configContainerSize cfg
    in length rp = length ps \<and>
       (\<forall>i<length ps.
          (\<forall>n. descriptorValue (ps ! i) = NumberValue n \<longrightarrow>
             snapOffset (rp ! i) = n * cs \<and> relative (rp ! i)) \<and>
          (\<forall>str. descriptorValue (ps ! i) = StringValue str \<longrightarrow>
             \<not> relative (rp ! i) \<and>
             (endsWith str ''px'' \<longrightarrow> snapOffset (rp ! i) = parseFloat str) \<and>
             (endsWith str ''%'' \<longrightarrow> snapOffset (rp ! i) = parseFloat str / Fin 100 * cs) \<and>
             (endsWith str ''vh'' \<longrightarrow>
                snapOffset (rp ! i) = parseFloat str / Fin 100 * innerHeight w) \<and>
             (endsWith str ''vw'' \<longrightarrow>
                snapOffset (rp ! i) = parseFloat str / Fin 100 * innerWidth w) \<and>
             (\<not> endsWith str ''px'' \<and> \<not> endsWith str ''%'' \<and> \<not> endsWith str ''vh'' \<and>
              \<not> endsWith str ''vw'' \<longrightarrow> snapOffset (rp ! i) = parseFloat str)) \<and>
          (\<forall>v. ps ! i = BarePoint v \<longrightarrow>
             snapId (rp ! i) = ''snap-'' @ indexString i \<and>
             list_all isDigit (indexString i) \<and> digitsValue (indexString i) = i) \<and>
          (\<forall>v name. ps ! i = ObjectPoint v name \<longrightarrow> snapId (rp ! i) = name))) \<and>
   map snapOffset (resolvedPoints (updateConfig w
      \<lparr>points = ratioPoints, configContainerSize = Fin 400, axis = a\<rparr> calc)) =
     [Fin 0, Fin 200, Fin 400] \<and>
   map snapOffset (resolvedPoints (updateConfig w
      \<lparr>points = percentPoints, configContainerSize = Fin 400, axis = a\<rparr> calc)) =
     [Fin 100, Fin 300] \<and>
   map snapOffset (resolvedPoints (updateConfig w
      \<lparr>points = pixelPoints, configContainerSize = anySize, axis = a\<rparr> calc)) =
     [Fin 100, Fin 200]"
proof -
  have "length (resolvedPoints (updateConfig w cfg calc)) = length (points cfg)"
    by (simp add: updateConfig_fields)
  then have general: "let rp = resolvedPoints (updateConfig w cfg calc); ps = points cfg;
        cs = configContainerSize cfg
    in length rp = length ps \<and>
       (\<forall>i<length ps.
          (\<forall>n. descriptorValue (ps ! i) = NumberValue n \<longrightarrow>
             snapOffset (rp ! i) = n * cs \<and> relative (rp ! i)) \<and>
          (\<forall>str. descriptorValue (ps ! i) = StringValue str \<longrightarrow>
             \<not> relative (rp ! i) \<and>
             (endsWith str ''px'' \<longrightarrow> snapOffset (rp ! i) = parseFloat str) \<and>
             (endsWith str ''%'' \<longrightarrow> snapOffset (rp ! i) = parseFloat str / Fin 100 * cs) \<and>
             (endsWith str ''vh'' \<longrightarrow>
                snapOffset (rp ! i) = parseFloat str / Fin 100 * innerHeight w) \<and>
             (endsWith str ''vw'' \<longrightarrow>
                snapOffset (rp ! i) = parseFloat str / Fin 100 * innerWidth w) \<and>
             (\<not> endsWith str ''px'' \<and> \<not> endsWith str ''%'' \<and> \<not> endsWith str ''vh'' \<and>
              \<not> endsWith str ''vw'' \<longrightarrow> snapOffset (rp ! i) = parseFloat str)) \<and>
          (\<forall>v. ps ! i = BarePoint v \<longrightarrow>
             snapId (rp ! i) = ''snap-'' @ indexString i \<and>
             list_all isDigit (indexString i) \<and> digitsValue (indexString i) = i) \<and>
          (\<forall>v name. ps ! i = ObjectPoint v name \<longrightarrow> snapId (rp ! i) = name))"
    unfolding Let_def
    using resolved_number [where cfg = cfg and w = w and calc = calc]
      resolved_string [where cfg = cfg and w = w and calc = calc]
      resolved_id [where cfg = cfg and w = w and calc = calc]
    by (auto simp: parseSnapValue_string indexString_all_digits indexString_decimal
        dest: suffixes_exclusive)
  show ?thesis
    using general ratio_example [of w a calc] percent_example [of w a calc]
      pixel_example [of w anySize a calc]
    by blast
qed

theorem updateConfig_resolves_descriptors_witness:
  "1 < length (points mixedConfig) \<and>
   descriptorValue (points mixedConfig ! 1) = StringValue ''25%'' \<and>
   endsWith ''25%'' ''%'' \<and>
   snapOffset (resolvedPoints (updateConfig exampleWindow mixedConfig exampleCalculator) ! 1) = Fin 100 \<and>
   snapId (resolvedPoints (updateConfig exampleWindow mixedConfig exampleCalculator) ! 1) = ''snap-1'' \<and>
   points mixedConfig ! 2 = ObjectPoint (StringValue ''50vh'') ''mid'' \<and>
   snapOffset (resolvedPoints (updateConfig exampleWindow mixedConfig exampleCalculator) ! 2) = Fin 400 \<and>
   snapId (resolvedPoints (updateConfig exampleWindow mixedConfig exampleCalculator) ! 2) = ''mid''"
proof -
  have len: "1 < length (points mixedConfig)" "2 < length (points mixedConfig)"
    by (simp_all add: mixedConfig_def)
  have d1: "descriptorValue (points mixedConfig ! 1) = StringValue ''25%''"
    and p1: "points mixedConfig ! 1 = BarePoint (StringValue ''25%'')"
    and d2: "descriptorValue (points mixedConfig ! 2) = StringValue ''50vh''"
    and p2: "points mixedConfig ! 2 = ObjectPoint (StringValue ''50vh'') ''mid''"
    by (simp_all add: mixedConfig_def descriptorValue_def)
  have e1: "endsWith ''25%'' ''%''" and e2: "endsWith ''50vh'' ''vh''"
    by (simp_all add: endsWith_def)
  note t = updateConfig_resolves_descriptors [of exampleWindow mixedConfig exampleCalculator,
      unfolded Let_def, THEN conjunct1, THEN conjunct2, rule_format]
  from t [OF len(1)] d1 e1 p1
  have "snapOffset (resolvedPoints (updateConfig exampleWindow mixedConfig exampleCalculator) ! 1) =
      parseFloat ''25%'' / Fin 100 * configContainerSize mixedConfig"
    and i1: "snapId (resolvedPoints (updateConfig exampleWindow mixedConfig exampleCalculator) ! 1) =
      ''snap-'' @ indexString 1"
    by blast+
  then have o1: "snapOffset (resolvedPoints (updateConfig exampleWindow mixedConfig exampleCalculator) ! 1) =
      Fin 100"
    by (simp add: parse_examples mixedConfig_def)
  from t [OF len(2)] d2 e2 p2
  have "snapOffset (resolvedPoints (updateConfig exampleWindow mixedConfig exampleCalculator) ! 2) =
      parseFloat ''50vh'' / Fin 100 * innerHeight exampleWindow"
    and i2: "snapId (resolvedPoints (updateConfig exampleWindow mixedConfig exampleCalculator) ! 2) = ''mid''"
    by blast+
  then have o2: "snapOffset (resolvedPoints (updateConfig exampleWindow mixedConfig exampleCalculator) ! 2) =
      Fin 400"
    by (simp add: parse_examples exampleWindow_def)
  have "''snap-'' @ indexString 1 = ''snap-1''"
    by (simp add: indexString.simps digitChar_def)
  with len d1 e1 o1 i1 p2 o2 i2 show ?thesis by simp
qed

section \<open>The nearest snap point\<close>

lemma scanInv_step:
  assumes inv: "scanInv q pts k (md, ni)" and k: "k < length pts"
  shows "scanInv q pts (Suc k)
           (if distanceTo q (pts ! k) < md then (distanceTo q (pts ! k), k) else (md, ni))"
proof (cases "distanceTo q (pts ! k) < md")
  case True
  let ?d = "distanceTo q (pts ! k)"
  from inv have old: "\<forall>j<k. \<not> distanceTo q (pts ! j) < md"
    by (simp add: scanInv_def)
  have a: "\<not> distanceTo q (pts ! j) < ?d" if "j < Suc k" for j
  proof (cases "j = k")
    case True
    then show ?thesis by (simp add: jsnum_less_irrefl)
  next
    case False
    with that have "j < k" by simp
    with old have "\<not> distanceTo q (pts ! j) < md" by simp
    with True show ?thesis using jsnum_less_trans \<open>?d < md\<close> by blast
  qed
  have b: "\<not> distanceTo q (pts ! j) \<le> ?d" if "j < k" for j
  proof
    assume "distanceTo q (pts ! j) \<le> ?d"
    then have "distanceTo q (pts ! j) < ?d \<or> distanceTo q (pts ! j) = ?d"
      by (auto simp: less_eq_jsnum_def)
    then have "distanceTo q (pts ! j) < md"
      using True jsnum_less_trans by auto
    with old that show False by simp
  qed
  from True a b show ?thesis by (simp add: scanInv_def)
next
  case False
  with inv show ?thesis
    by (auto simp: scanInv_def less_Suc_eq)
qed

lemma nearestScan_inv:
  "scanInv q pts (length pre) acc \<Longrightarrow> pts = pre @ rest \<Longrightarrow>
   scanInv q pts (length pts) (nearestScan q rest (length pre) acc)"
proof (induction rest arbitrary: pre acc)
  case Nil
  then show ?case by simp
next
  case (Cons p rest)
  obtain md ni where acc: "acc = (md, ni)" by (cases acc)
  have k: "length pre < length pts" and p: "pts ! length pre = p"
    using Cons.prems(2) by simp_all
  have step: "scanInv q pts (length (pre @ [p]))
      (if distanceTo q p < md then (distanceTo q p, length pre) else (md, ni))"
    using scanInv_step [OF Cons.prems(1) [unfolded acc] k, unfolded p] by simp
  have "pts = (pre @ [p]) @ rest" using Cons.prems(2) by simp
  from Cons.IH [OF step this] show ?case
    by (auto simp: acc distanceTo_def Let_def split: if_splits)
qed

lemma nearestScan_result:
  "scanInv q pts (length pts) (nearestScan q pts 0 (PInf, 0))"
  using nearestScan_inv [of q pts "[]" "(PInf, 0)" pts]
  by (simp add: scanInv_def)

lemma nearestScan_minimal:
  fixes q :: jsnum and pts :: "SnapPointResolved list"
  assumes "pts \<noteq> []"
  defines "i \<equiv> snd (nearestScan q pts 0 (PInf, 0))"
  shows "i < length pts"
    and "\<forall>j<length pts. \<not> distanceTo q (pts ! j) < distanceTo q (pts ! i)"
    and "\<forall>j<i. \<not> distanceTo q (pts ! j) \<le> distanceTo q (pts ! i)"
proof -
  obtain md where r: "nearestScan q pts 0 (PInf, 0) = (md, i)"
    unfolding i_def by (cases "nearestScan q pts 0 (PInf, 0)") simp
  from nearestScan_result [of q pts] r
  have all: "\<forall>j<length pts. \<not> distanceTo q (pts ! j) < md"
    and alt: "(md = PInf \<and> i = 0) \<or>
      (i < length pts \<and> md = distanceTo q (pts ! i) \<and> (\<forall>j<i. \<not> distanceTo q (pts ! j) \<le> md))"
    by (simp_all add: scanInv_def)
  from alt assms(1) show "i < length pts" by auto
  from alt show "\<forall>j<length pts. \<not> distanceTo q (pts ! j) < distanceTo q (pts ! i)"
  proof
    assume d: "md = PInf \<and> i = 0"
    show ?thesis
    proof (intro allI impI)
      fix j assume j: "j < length pts"
      from all d assms(1) have "\<not> distanceTo q (pts ! i) < PInf" by simp
      then have "distanceTo q (pts ! i) = PInf \<or> distanceTo q (pts ! i) = NaN"
        by (rule not_less_PInf_cases)
      moreover from all d j have "\<not> distanceTo q (pts ! j) < PInf" by simp
      ultimately show "\<not> distanceTo q (pts ! j) < distanceTo q (pts ! i)"
        by (cases "distanceTo q (pts ! j)") auto
    qed
  next
    assume "i < length pts \<and> md = distanceTo q (pts ! i) \<and> (\<forall>j<i. \<not> distanceTo q (pts ! j) \<le> md)"
    with all show ?thesis by simp
  qed
  from alt show "\<forall>j<i. \<not> distanceTo q (pts ! j) \<le> distanceTo q (pts ! i)"
    by auto
qed

lemma nearest_example:
  "findNearestSnapPoint exampleCalculator (Fin 180) =
     \<lparr>index = Fin 1, offset = Fin 200, ident = ''snap-1''\<rparr>"
  by (simp add: findNearestSnapPoint_def exampleCalculator_points)

text \<open>
  Claim C3. On a non-empty list \<open>findNearestSnapPoint\<close> returns the index, offset and id
  of a resolved point such that no point of the list is strictly nearer to the query
  offset and no point before it is as near (the lowest index among the nearest; where the
  distances are numbers, the returned one is at most every other); on the empty list it
  returns index 0, offset 0, id \<open>snap-0\<close>. Over the offsets \<open>[0, 200, 400]\<close>,
  the query 180 returns index 1. The comparisons are those of the program, so the
  statement also covers offsets that are infinite or \<open>NaN\<close>.
\<close>

theorem findNearestSnapPoint_nearest:
  "(resolvedPoints calc \<noteq> [] \<longrightarrow>
      (\<exists>i<length (resolvedPoints calc).
         findNearestSnapPoint calc q =
           \<lparr>index = Fin (real i), offset = snapOffset (resolvedPoints calc ! i),
            ident = snapId (resolvedPoints calc ! i)\<rparr> \<and>
         (\<forall>j<length (resolvedPoints calc).
            \<not> distanceTo q (resolvedPoints calc ! j) < distanceTo q (resolvedPoints calc ! i)) \<and>
         (\<forall>j<i. \<not> distanceTo q (resolvedPoints calc ! j) \<le> distanceTo q (resolvedPoints calc ! i)) \<and>
         (\<forall>j<length (resolvedPoints calc).
            distanceTo q (resolvedPoints calc ! j) \<noteq> NaN \<and>
            distanceTo q (resolvedPoints calc ! i) \<noteq> NaN \<longrightarrow>
            distanceTo q (resolvedPoints calc ! i) \<le> distanceTo q (resolvedPoints calc ! j)))) \<and>
   (resolvedPoints calc = [] \<longrightarrow>
      findNearestSnapPoint calc q = \<lparr>index = Fin 0, offset = Fin 0, ident = ''snap-0''\<rparr>) \<and>
   map snapOffset (resolvedPoints exampleCalculator) = [Fin 0, Fin 200, Fin 400] \<and>
   index (findNearestSnapPoint exampleCalculator (Fin 180)) = Fin 1"
proof (intro conjI impI)
  assume ne: "resolvedPoints calc \<noteq> []"
  let ?pts = "resolvedPoints calc"
  let ?i = "snd (nearestScan q ?pts 0 (PInf, 0))"
  note m = nearestScan_minimal [OF ne, of q]
  have r: "findNearestSnapPoint calc q =
      \<lparr>index = Fin (real ?i), offset = snapOffset (?pts ! ?i), ident = snapId (?pts ! ?i)\<rparr>"
    using m(1) by (simp add: findNearestSnapPoint_def Let_def)
  have le: "\<forall>j<length ?pts.
      distanceTo q (?pts ! j) \<noteq> NaN \<and> distanceTo q (?pts ! ?i) \<noteq> NaN \<longrightarrow>
      distanceTo q (?pts ! ?i) \<le> distanceTo q (?pts ! j)"
  proof (intro allI impI)
    fix j assume j: "j < length ?pts"
      and n: "distanceTo q (?pts ! j) \<noteq> NaN \<and> distanceTo q (?pts ! ?i) \<noteq> NaN"
    from m(2) j have "\<not> distanceTo q (?pts ! j) < distanceTo q (?pts ! ?i)"
      by simp
    with n show "distanceTo q (?pts ! ?i) \<le> distanceTo q (?pts ! j)"
      using jsnum_not_less_le [of "distanceTo q (?pts ! j)" "distanceTo q (?pts ! ?i)"]
      by simp
  qed
  show "\<exists>i<length ?pts.
         findNearestSnapPoint calc q =
           \<lparr>index = Fin (real i), offset = snapOffset (?pts ! i), ident = snapId (?pts ! i)\<rparr> \<and>
         (\<forall>j<length ?pts. \<not> distanceTo q (?pts ! j) < distanceTo q (?pts ! i)) \<and>
         (\<forall>j<i. \<not> distanceTo q (?pts ! j) \<le> distanceTo q (?pts ! i)) \<and>
         (\<forall>j<length ?pts.
            distanceTo q (?pts ! j) \<noteq> NaN \<and> distanceTo q (?pts ! i) \<noteq> NaN \<longrightarrow>
            distanceTo q (?pts ! i) \<le> distanceTo q (?pts ! j))"
  proof (rule exI [of _ "?i"], intro conjI)
    show "?i < length ?pts" by (rule m(1))
    show "findNearestSnapPoint calc q =
      \<lparr>index = Fin (real ?i), offset = snapOffset (?pts ! ?i), ident = snapId (?pts ! ?i)\<rparr>"
      by (rule r)
    show "\<forall>j<length ?pts. \<not> distanceTo q (?pts ! j) < distanceTo q (?pts ! ?i)"
      by (rule m(2))
    show "\<forall>j<?i. \<not> distanceTo q (?pts ! j) \<le> distanceTo q (?pts ! ?i)"
      by (rule m(3))
    show "\<forall>j<length ?pts.
      distanceTo q (?pts ! j) \<noteq> NaN \<and> distanceTo q (?pts ! ?i) \<noteq> NaN \<longrightarrow>
      distanceTo q (?pts ! ?i) \<le> distanceTo q (?pts ! j)"
      by (rule le)
  qed
next
  assume "resolvedPoints calc = []"
  then show "findNearestSnapPoint calc q = \<lparr>index = Fin 0, offset = Fin 0, ident = ''snap-0''\<rparr>"
    by (simp add: findNearestSnapPoint_def)
next
  show "map snapOffset (resolvedPoints exampleCalculator) = [Fin 0, Fin 200, Fin 400]"
    by (simp add: exampleCalculator_points)
next
  show "index (findNearestSnapPoint exampleCalculator (Fin 180)) = Fin 1"
    by (simp add: nearest_example)
qed

theorem findNearestSnapPoint_nearest_witness:
  "resolvedPoints exampleCalculator \<noteq> [] \<and>
   findNearestSnapPoint exampleCalculator (Fin 180) =
     \<lparr>index = Fin 1, offset = Fin 200, ident = ''snap-1''\<rparr>"
proof -
  let ?pts = "resolvedPoints exampleCalculator"
  have ne: "?pts \<noteq> []" by (simp add: exampleCalculator_points)
  from findNearestSnapPoint_nearest [of exampleCalculator "Fin 180", THEN conjunct1, rule_format, OF ne]
  obtain i where i: "i < length ?pts"
    and r: "findNearestSnapPoint exampleCalculator (Fin 180) =
      \<lparr>index = Fin (real i), offset = snapOffset (?pts ! i), ident = snapId (?pts ! i)\<rparr>"
    and m: "\<forall>j<length ?pts. \<not> distanceTo (Fin 180) (?pts ! j) < distanceTo (Fin 180) (?pts ! i)"
    by (elim exE conjE) (rule that, assumption+)
  have "1 < length ?pts" by (simp add: exampleCalculator_points)
  with m have n: "\<not> distanceTo (Fin 180) (?pts ! 1) < distanceTo (Fin 180) (?pts ! i)"
    by simp
  from i have "i = 0 \<or> i = 1 \<or> i = 2"
    by (auto simp: exampleCalculator_points)
  with n have "i = 1"
    by (auto simp: exampleCalculator_points distanceTo_def)
  with r ne show ?thesis
    by (simp add: exampleCalculator_points)
qed

section \<open>The next snap point\<close>

lemma findNext_insignificant:
  "\<not> th < \<bar>v\<bar> \<Longrightarrow> findNextSnapPoint calc ci v th = None"
  by (simp add: findNextSnapPoint_def)

lemma min_forward:
  "Suc i < n \<Longrightarrow> Math_min (Fin (real i) + Fin 1) (Fin (real n) - Fin 1) = Fin (real (Suc i))"
  "Suc i = n \<Longrightarrow> Math_min (Fin (real i) + Fin 1) (Fin (real n) - Fin 1) = Fin (real i)"
  by (auto simp: Math_min_def add.commute)

lemma max_backward:
  "0 < i \<Longrightarrow> Math_max (Fin (real i) - Fin 1) (Fin 0) = Fin (real (i - 1))"
  "i = 0 \<Longrightarrow> Math_max (Fin (real i) - Fin 1) (Fin 0) = Fin (real i)"
  by (simp_all add: Math_max_def)

lemma js_eq_nat [simp]: "js_eq (Fin (real i)) (Fin (real j)) = (i = j)"
  by (simp add: js_eq_def)

lemmas if_rules = if_True if_False not_True_eq_False not_False_eq_True option.case refl

lemma findNext_forward:
  assumes "th < \<bar>v\<bar>" "Fin 0 < v" "i < length (resolvedPoints calc)"
  shows "findNextSnapPoint calc (Fin (real i)) v th =
     (if Suc i < length (resolvedPoints calc)
      then Some \<lparr>index = Fin (real (Suc i)), offset = snapOffset (resolvedPoints calc ! Suc i),
                  ident = snapId (resolvedPoints calc ! Suc i)\<rparr>
      else None)"
proof (cases "Suc i < length (resolvedPoints calc)")
  case True
  show ?thesis
    unfolding findNextSnapPoint_def Let_def
    apply (simp only: assms(1,2) if_rules)
    apply (simp only: min_forward(1) [OF True] js_eq_nat js_index_nat Suc_n_not_n)
    apply (simp only: True if_rules)
    done
next
  case False
  with assms(3) have e: "Suc i = length (resolvedPoints calc)" by simp
  have f: "(Suc i < length (resolvedPoints calc)) = False" using False by simp
  show ?thesis
    unfolding findNextSnapPoint_def Let_def
    apply (simp only: assms(1,2) if_rules)
    apply (simp only: min_forward(2) [OF e] js_eq_nat)
    apply (simp only: f if_rules)
    done
qed

lemma findNext_backward:
  assumes "th < \<bar>v\<bar>" "\<not> Fin 0 < v" "i < length (resolvedPoints calc)"
  shows "findNextSnapPoint calc (Fin (real i)) v th =
     (if 0 < i
      then Some \<lparr>index = Fin (real (i - 1)), offset = snapOffset (resolvedPoints calc ! (i - 1)),
                  ident = snapId (resolvedPoints calc ! (i - 1))\<rparr>
      else None)"
proof (cases "0 < i")
  case True
  have a: "(i - 1 = i) = False" using True by simp
  have b: "(i - 1 < length (resolvedPoints calc)) = True" using assms(3) by simp
  have c: "(Fin 0 < v) = False" using assms(2) by simp
  show ?thesis
    unfolding findNextSnapPoint_def Let_def
    apply (simp only: assms(1) c if_rules)
    apply (simp only: max_backward(1) [OF True] js_eq_nat js_index_nat a b)
    apply (simp only: True if_rules)
    done
next
  case False
  then have z: "i = 0" by simp
  have c: "(Fin 0 < v) = False" using assms(2) by simp
  have f: "(0 < i) = False" using False by simp
  show ?thesis
    unfolding findNextSnapPoint_def Let_def
    apply (simp only: assms(1) c if_rules)
    apply (simp only: max_backward(2) [OF z] js_eq_nat)
    apply (simp only: f if_rules)
    done
qed

lemma abs_insignificant: "v \<noteq> NaN \<Longrightarrow> th \<noteq> NaN \<Longrightarrow> (\<not> th < \<bar>v\<bar>) = (\<bar>v\<bar> \<le> th)"
  by (cases v; cases th) (auto simp: less_eq_jsnum_def)

lemma significant_backward: "Fin 0 \<le> th \<Longrightarrow> th < \<bar>v\<bar> \<Longrightarrow> \<not> Fin 0 < v \<Longrightarrow> v < Fin 0"
  by (cases v; cases th) (auto simp: less_eq_jsnum_def)

lemma next_examples:
  "findNextSnapPoint exampleCalculator (Fin 0) (Fin (3 / 2)) defaultVelocityThreshold =
     Some \<lparr>index = Fin 1, offset = Fin 200, ident = ''snap-1''\<rparr>"
  "findNextSnapPoint exampleCalculator (Fin 0) (Fin (1 / 5)) defaultVelocityThreshold = None"
  "findNextSnapPoint exampleCalculator (Fin 5) (Fin (3 / 2)) defaultVelocityThreshold =
     Some \<lparr>index = Fin 2, offset = Fin 400, ident = ''snap-2''\<rparr>"
  "findNextSnapPoint exampleCalculator (Fin 5) (Fin (- (3 / 2))) defaultVelocityThreshold = None"
  "findNextSnapPoint exampleCalculator (Fin (1 / 2)) (Fin (3 / 2)) defaultVelocityThreshold = None"
  by (simp_all add: findNextSnapPoint_def exampleCalculator_points defaultVelocityThreshold_def
      Math_min_def Math_max_def js_eq_def)


lemma empty_next:
  "findNextSnapPoint emptyCalculator (Fin 0) (Fin (3 / 2)) defaultVelocityThreshold = None"
  "\<not> js_eq (Math_min (Fin 0 + Fin 1) (Fin (real (length (resolvedPoints emptyCalculator))) - Fin 1)) (Fin 0)"
  by (simp_all add: findNextSnapPoint_def emptyCalculator_def newCalculator_def resolve_defs
      defaultVelocityThreshold_def Math_min_def js_eq_def)

lemma Math_min_cases: "Math_min a b = NaN \<or> Math_min a b = a \<or> Math_min a b = b"
  by (simp add: Math_min_def)

lemma Math_max_cases: "Math_max a b = NaN \<or> Math_max a b = a \<or> Math_max a b = b"
  by (simp add: Math_max_def)

lemma findNext_Some:
  assumes "findNextSnapPoint calc ci v th = Some t"
  shows "\<exists>j<length (resolvedPoints calc).
     t = \<lparr>index = Fin (real j), offset = snapOffset (resolvedPoints calc ! j),
          ident = snapId (resolvedPoints calc ! j)\<rparr> \<and>
     Fin (real j) =
       (if Fin 0 < v
        then Math_min (ci + Fin 1) (Fin (real (length (resolvedPoints calc))) - Fin 1)
        else Math_max (ci - Fin 1) (Fin 0))"
proof -
  let ?next = "if Fin 0 < v
        then Math_min (ci + Fin 1) (Fin (real (length (resolvedPoints calc))) - Fin 1)
        else Math_max (ci - Fin 1) (Fin 0)"
  from assms obtain p where p: "js_index (resolvedPoints calc) ?next = Some p"
    and t: "t = \<lparr>index = ?next, offset = snapOffset p, ident = snapId p\<rparr>"
    by (auto simp: findNextSnapPoint_def Let_def split: if_splits option.splits)
  from p obtain j where "j < length (resolvedPoints calc)" "?next = Fin (real j)"
    "p = resolvedPoints calc ! j"
    unfolding js_index_Some_iff by blast
  with t show ?thesis by auto
qed

lemma plus_one_Fin: "ci + Fin 1 = Fin r \<Longrightarrow> ci = Fin (r - 1)"
  by (cases ci) auto

lemma minus_one_Fin: "ci - Fin 1 = Fin r \<Longrightarrow> ci = Fin (r + 1)"
  by (cases ci) (auto simp: minus_jsnum_def)

lemma findNext_outside:
  assumes out: "\<not> (\<exists>i<length (resolvedPoints calc). ci = Fin (real i))"
  shows "findNextSnapPoint calc ci v th = None \<or>
     (resolvedPoints calc \<noteq> [] \<and>
      (findNextSnapPoint calc ci v th =
         Some \<lparr>index = Fin 0, offset = snapOffset (resolvedPoints calc ! 0),
               ident = snapId (resolvedPoints calc ! 0)\<rparr> \<or>
       findNextSnapPoint calc ci v th =
         Some \<lparr>index = Fin (real (length (resolvedPoints calc) - 1)),
               offset = snapOffset (resolvedPoints calc ! (length (resolvedPoints calc) - 1)),
               ident = snapId (resolvedPoints calc ! (length (resolvedPoints calc) - 1))\<rparr>))"
proof (cases "findNextSnapPoint calc ci v th")
  case None
  then show ?thesis by simp
next
  case (Some t)
  let ?pts = "resolvedPoints calc"
  from findNext_Some [OF Some] obtain j where j: "j < length ?pts"
    and t: "t = \<lparr>index = Fin (real j), offset = snapOffset (?pts ! j), ident = snapId (?pts ! j)\<rparr>"
    and n: "Fin (real j) =
       (if Fin 0 < v then Math_min (ci + Fin 1) (Fin (real (length ?pts)) - Fin 1)
        else Math_max (ci - Fin 1) (Fin 0))"
    by blast
  from j have ne: "?pts \<noteq> []" by auto
  have "j = 0 \<or> j = length ?pts - 1"
  proof (cases "Fin 0 < v")
    case True
    with n have m: "Math_min (ci + Fin 1) (Fin (real (length ?pts)) - Fin 1) = Fin (real j)" by simp
    from Math_min_cases [of "ci + Fin 1" "Fin (real (length ?pts)) - Fin 1"] m
    consider "ci + Fin 1 = Fin (real j)" | "Fin (real (length ?pts)) - Fin 1 = Fin (real j)"
      by auto
    then show ?thesis
    proof cases
      case 1
      then have c: "ci = Fin (real j - 1)" by (rule plus_one_Fin)
      show ?thesis
      proof (cases j)
        case 0
        then show ?thesis by simp
      next
        case (Suc k)
        with c have "ci = Fin (real k)" by simp
        moreover from Suc j have "k < length ?pts" by simp
        ultimately show ?thesis using out by blast
      qed
    next
      case 2
      then have "real (length ?pts) - 1 = real j" by simp
      then show ?thesis using j by linarith
    qed
  next
    case False
    with n have m: "Math_max (ci - Fin 1) (Fin 0) = Fin (real j)" by simp
    from Math_max_cases [of "ci - Fin 1" "Fin 0"] m
    consider "ci - Fin 1 = Fin (real j)" | "Fin 0 = Fin (real j)"
      by auto
    then show ?thesis
    proof cases
      case 1
      then have "ci = Fin (real j + 1)" by (rule minus_one_Fin)
      then have c: "ci = Fin (real (Suc j))" by (simp add: add.commute)
      with out have "\<not> Suc j < length ?pts" by blast
      with j show ?thesis by arith
    next
      case 2
      then show ?thesis by simp
    qed
  qed
  with Some t ne show ?thesis by auto
qed

lemma findNextSnapPoint_in_range:
  "i < length (resolvedPoints calc) \<longrightarrow>
     ((findNextSnapPoint calc (Fin (real i)) v th = None) =
        (\<not> th < \<bar>v\<bar> \<or> (if Fin 0 < v then Suc i = length (resolvedPoints calc) else i = 0))) \<and>
     (th < \<bar>v\<bar> \<and> Fin 0 < v \<and> Suc i < length (resolvedPoints calc) \<longrightarrow>
        findNextSnapPoint calc (Fin (real i)) v th =
          Some \<lparr>index = Fin (real (Suc i)), offset = snapOffset (resolvedPoints calc ! Suc i),
                ident = snapId (resolvedPoints calc ! Suc i)\<rparr>) \<and>
     (th < \<bar>v\<bar> \<and> \<not> Fin 0 < v \<and> 0 < i \<longrightarrow>
        findNextSnapPoint calc (Fin (real i)) v th =
          Some \<lparr>index = Fin (real (i - 1)), offset = snapOffset (resolvedPoints calc ! (i - 1)),
                ident = snapId (resolvedPoints calc ! (i - 1))\<rparr>) \<and>
     (v \<noteq> NaN \<and> th \<noteq> NaN \<longrightarrow> (\<not> th < \<bar>v\<bar>) = (\<bar>v\<bar> \<le> th)) \<and>
     (Fin 0 \<le> th \<and> th < \<bar>v\<bar> \<and> \<not> Fin 0 < v \<longrightarrow> v < Fin 0)"
proof
  assume i: "i < length (resolvedPoints calc)"
  have a: "(findNextSnapPoint calc (Fin (real i)) v th = None) =
        (\<not> th < \<bar>v\<bar> \<or> (if Fin 0 < v then Suc i = length (resolvedPoints calc) else i = 0))"
  proof (cases "th < \<bar>v\<bar>")
    case False
    then show ?thesis by (simp add: findNext_insignificant)
  next
    case sig: True
    show ?thesis
    proof (cases "Fin 0 < v")
      case True
      with sig i show ?thesis
        by (auto simp: findNext_forward simp del: of_nat_Suc)
    next
      case False
      with sig i show ?thesis
        by (simp add: findNext_backward)
    qed
  qed
  have b: "th < \<bar>v\<bar> \<and> Fin 0 < v \<and> Suc i < length (resolvedPoints calc) \<longrightarrow>
        findNextSnapPoint calc (Fin (real i)) v th =
          Some \<lparr>index = Fin (real (Suc i)), offset = snapOffset (resolvedPoints calc ! Suc i),
                ident = snapId (resolvedPoints calc ! Suc i)\<rparr>"
    using i by (simp add: findNext_forward del: of_nat_Suc)
  have c: "th < \<bar>v\<bar> \<and> \<not> Fin 0 < v \<and> 0 < i \<longrightarrow>
        findNextSnapPoint calc (Fin (real i)) v th =
          Some \<lparr>index = Fin (real (i - 1)), offset = snapOffset (resolvedPoints calc ! (i - 1)),
                ident = snapId (resolvedPoints calc ! (i - 1))\<rparr>"
    using i by (simp add: findNext_backward del: of_nat_diff)
  have d: "v \<noteq> NaN \<and> th \<noteq> NaN \<longrightarrow> (\<not> th < \<bar>v\<bar>) = (\<bar>v\<bar> \<le> th)"
    using abs_insignificant by blast
  have e: "Fin 0 \<le> th \<and> th < \<bar>v\<bar> \<and> \<not> Fin 0 < v \<longrightarrow> v < Fin 0"
    using significant_backward by blast
  from a b c d e show "((findNextSnapPoint calc (Fin (real i)) v th = None) =
        (\<not> th < \<bar>v\<bar> \<or> (if Fin 0 < v then Suc i = length (resolvedPoints calc) else i = 0))) \<and>
     (th < \<bar>v\<bar> \<and> Fin 0 < v \<and> Suc i < length (resolvedPoints calc) \<longrightarrow>
        findNextSnapPoint calc (Fin (real i)) v th =
          Some \<lparr>index = Fin (real (Suc i)), offset = snapOffset (resolvedPoints calc ! Suc i),
                ident = snapId (resolvedPoints calc ! Suc i)\<rparr>) \<and>
     (th < \<bar>v\<bar> \<and> \<not> Fin 0 < v \<and> 0 < i \<longrightarrow>
        findNextSnapPoint calc (Fin (real i)) v th =
          Some \<lparr>index = Fin (real (i - 1)), offset = snapOffset (resolvedPoints calc ! (i - 1)),
                ident = snapId (resolvedPoints calc ! (i - 1))\<rparr>) \<and>
     (v \<noteq> NaN \<and> th \<noteq> NaN \<longrightarrow> (\<not> th < \<bar>v\<bar>) = (\<bar>v\<bar> \<le> th)) \<and>
     (Fin 0 \<le> th \<and> th < \<bar>v\<bar> \<and> \<not> Fin 0 < v \<longrightarrow> v < Fin 0)"
    by (intro conjI)
qed





section \<open>Non-negative offsets\<close>

lemma finiteNonNegative_mult:
  "finiteNonNegative a \<Longrightarrow> finiteNonNegative b \<Longrightarrow> finiteNonNegative (a * b)"
  by (cases a; cases b) auto

lemma finiteNonNegative_percent: "finiteNonNegative a \<Longrightarrow> finiteNonNegative (a / Fin 100)"
  by (cases a) auto

lemma finiteNonNegative_ge: "finiteNonNegative a \<Longrightarrow> Fin 0 \<le> a"
  by (cases a) auto

lemma parseSnapValue_nonneg:
  assumes "finiteNonNegative cs" "finiteNonNegative (innerHeight w)" "finiteNonNegative (innerWidth w)"
    and "finiteNonNegative (case v of NumberValue n \<Rightarrow> n | StringValue str \<Rightarrow> parseFloat str)"
  shows "finiteNonNegative (parseSnapValue w cs v)"
  using assms
  by (cases v) (auto simp: parseSnapValue_def finiteNonNegative_mult finiteNonNegative_percent)

text \<open>
  Claim C8, amended. When the container size and the two viewport dimensions are finite
  and non-negative, and the number of every descriptor (the number itself, or what its
  string parses to) is finite and non-negative, every resolved offset is non-negative.
\<close>

theorem offsets_nonnegative:
  assumes "finiteNonNegative (configContainerSize cfg)"
    and "finiteNonNegative (innerHeight w)" and "finiteNonNegative (innerWidth w)"
    and "\<forall>p\<in>set (points cfg). finiteNonNegative (descriptorNumber p)"
  shows "\<forall>r\<in>set (resolvedPoints (updateConfig w cfg calc)). Fin 0 \<le> snapOffset r"
proof
  fix r assume "r \<in> set (resolvedPoints (updateConfig w cfg calc))"
  then obtain i where i: "i < length (points cfg)"
    and r: "r = resolvePoint w (configContainerSize cfg) i (points cfg ! i)"
    by (auto simp: updateConfig_fields in_set_conv_nth resolveSnapPoints_nth)
  from i assms(4) have "finiteNonNegative (descriptorNumber (points cfg ! i))" by simp
  then have "finiteNonNegative (snapOffset r)"
    unfolding r resolvePoint_offset descriptorNumber_def
    by (rule parseSnapValue_nonneg [OF assms(1-3)])
  then show "Fin 0 \<le> snapOffset r" by (rule finiteNonNegative_ge)
qed

theorem offsets_nonnegative_witness:
  "finiteNonNegative (configContainerSize mixedConfig) \<and>
   finiteNonNegative (innerHeight exampleWindow) \<and> finiteNonNegative (innerWidth exampleWindow) \<and>
   list_all (\<lambda>p. finiteNonNegative (descriptorNumber p)) (points mixedConfig) \<and>
   list_all (\<lambda>r. Fin 0 \<le> snapOffset r)
     (resolvedPoints (updateConfig exampleWindow mixedConfig exampleCalculator))"
proof -
  have a: "finiteNonNegative (configContainerSize mixedConfig)"
    "finiteNonNegative (innerHeight exampleWindow)" "finiteNonNegative (innerWidth exampleWindow)"
    by (simp_all add: mixedConfig_def exampleWindow_def)
  have b: "list_all (\<lambda>p. finiteNonNegative (descriptorNumber p)) (points mixedConfig)"
    by (simp add: mixedConfig_def descriptorNumber_def descriptorValue_def parse_examples)
  then have "\<forall>p\<in>set (points mixedConfig). finiteNonNegative (descriptorNumber p)"
    by (simp add: list_all_iff)
  from offsets_nonnegative [OF a this, of exampleCalculator]
  have "list_all (\<lambda>r. Fin 0 \<le> snapOffset r)
     (resolvedPoints (updateConfig exampleWindow mixedConfig exampleCalculator))"
    by (simp add: list_all_iff)
  with a b show ?thesis by simp
qed

text \<open>
  Claim C8 as stated fails: nothing keeps a descriptor from being negative. The points
  \<open>[-0.5, '-100px']\<close> over a container of 400 resolve to the offsets \<open>[-200, -100]\<close>.
\<close>

theorem offsets_nonnegative_counterexample:
  "map snapOffset (resolvedPoints (updateConfig exampleWindow
      \<lparr>points = negativePoints, configContainerSize = Fin 400, axis = Vertical\<rparr> exampleCalculator)) =
     [Fin (- 200), Fin (- 100)] \<and>
   \<not> Fin 0 \<le> Fin (- 200) \<and> \<not> Fin 0 \<le> Fin (- 100)"
  by (simp add: negativePoints_def resolve_defs parse_examples endsWith_def)


section \<open>Reading a snap point\<close>

text \<open>
  Claim C10. \<open>getSnapPoint(index)\<close> returns a resolved point exactly when the index is an
  integer within \<open>[0, getSnapPointCount())\<close>, and then the point at that index; it returns
  null at every other number: a negative one, one at or beyond the count, a fraction,
  \<open>NaN\<close>.
\<close>

theorem getSnapPoint_total:
  "((getSnapPoint calc x \<noteq> None) = (\<exists>i<getSnapPointCount calc. x = Fin (real i))) \<and>
   (\<forall>i<getSnapPointCount calc. getSnapPoint calc (Fin (real i)) = Some (resolvedPoints calc ! i)) \<and>
   (x < Fin 0 \<longrightarrow> getSnapPoint calc x = None) \<and>
   (Fin (real (getSnapPointCount calc)) \<le> x \<longrightarrow> getSnapPoint calc x = None) \<and>
   (\<forall>r. x = Fin r \<and> real_of_int \<lfloor>r\<rfloor> \<noteq> r \<longrightarrow> getSnapPoint calc x = None) \<and>
   (x = NaN \<longrightarrow> getSnapPoint calc x = None)"
proof -
  have a: "(getSnapPoint calc x \<noteq> None) = (\<exists>i<getSnapPointCount calc. x = Fin (real i))"
    unfolding getSnapPoint_def getSnapPointCount_def
    using js_index_Some_iff [of "resolvedPoints calc" x] by auto
  have b: "\<forall>i<getSnapPointCount calc. getSnapPoint calc (Fin (real i)) = Some (resolvedPoints calc ! i)"
    by (simp add: getSnapPoint_def getSnapPointCount_def)
  have c: "x < Fin 0 \<longrightarrow> getSnapPoint calc x = None"
    by (cases x) (auto simp: getSnapPoint_def)
  have d: "Fin (real (getSnapPointCount calc)) \<le> x \<longrightarrow> getSnapPoint calc x = None"
    by (cases x) (auto simp: getSnapPoint_def getSnapPointCount_def less_eq_jsnum_def)
  have e: "\<forall>r. x = Fin r \<and> real_of_int \<lfloor>r\<rfloor> \<noteq> r \<longrightarrow> getSnapPoint calc x = None"
    by (auto simp: getSnapPoint_def)
  have f: "x = NaN \<longrightarrow> getSnapPoint calc x = None"
    by (simp add: getSnapPoint_def)
  from a b c d e f show ?thesis by (intro conjI)
qed

theorem getSnapPoint_total_witness:
  "Fin (- 1) < Fin 0 \<and> getSnapPoint exampleCalculator (Fin (- 1)) = None \<and>
   real_of_int \<lfloor>1 / 2 :: real\<rfloor> \<noteq> 1 / 2 \<and> getSnapPoint exampleCalculator (Fin (1 / 2)) = None \<and>
   Fin (real (getSnapPointCount exampleCalculator)) \<le> Fin 3 \<and>
   getSnapPoint exampleCalculator (Fin 3) = None \<and>
   2 < getSnapPointCount exampleCalculator \<and>
   getSnapPoint exampleCalculator (Fin 2) =
     Some \<lparr>snapId = ''snap-2'', snapOffset = Fin 400, relative = True\<rparr>"
proof -
  have h: "Fin (- 1) < Fin 0" "real_of_int \<lfloor>1 / 2 :: real\<rfloor> \<noteq> 1 / 2"
    "Fin (real (getSnapPointCount exampleCalculator)) \<le> Fin 3"
    "2 < getSnapPointCount exampleCalculator"
    by (simp_all add: getSnapPointCount_def exampleCalculator_points)
  note t = getSnapPoint_total [of exampleCalculator]
  from t [of "Fin (- 1)"] h(1) have a: "getSnapPoint exampleCalculator (Fin (- 1)) = None"
    by blast
  from t [of "Fin (1 / 2)"] h(2) have b: "getSnapPoint exampleCalculator (Fin (1 / 2)) = None"
    by blast
  from t [of "Fin 3"] h(3) have c: "getSnapPoint exampleCalculator (Fin 3) = None"
    by blast
  from t [of "Fin 2"] h(4) have "getSnapPoint exampleCalculator (Fin (real 2)) =
      Some (resolvedPoints exampleCalculator ! 2)"
    by blast
  then have d: "getSnapPoint exampleCalculator (Fin 2) =
     Some \<lparr>snapId = ''snap-2'', snapOffset = Fin 400, relative = True\<rparr>"
    by (simp add: exampleCalculator_points)
  from h a b c d show ?thesis by simp
qed

section \<open>The velocity of a gesture\<close>

lemma calculateVelocity_slope: "calculateVelocity h = slopeOf h"
proof (cases "length h < 2")
  case True
  then show ?thesis by (simp add: calculateVelocity_def slopeOf_def)
next
  case False
  then have n: "h \<noteq> []" and l: "length h - 1 < length h" by auto
  have "Fin (real (length h)) - Fin 1 = Fin (real (length h - 1))"
    using False by simp
  moreover have "last h = h ! (length h - 1)"
    using n by (rule last_conv_nth)
  ultimately have a: "js_index h (Fin (real (length h)) - Fin 1) = Some (last h)"
    using l by (simp only: js_index_nat if_True)
  have b: "js_index h (Fin 0) = Some (hd h)"
    using n by (simp add: hd_conv_nth)
  show ?thesis
    unfolding calculateVelocity_def a b
    using False by (simp add: slopeOf_def js_eq_def Let_def)
qed

lemma velocityInv_new: "velocityInv newPointerTracker"
  by (simp add: velocityInv_def newPointerTracker_def getInitialState_def velocityOf_def
      calculateVelocity_def)

lemma move_velocity:
  "velocityInv t \<Longrightarrow> velocityOf (fst (move e t)) = calculateVelocity (history (snd (move e t)))
     \<and> state (snd (move e t)) = fst (move e t)"
  by (simp add: move_def velocityInv_def velocityOf_def Let_def split: prod.splits)

lemma finish_velocity:
  "velocityInv t \<Longrightarrow> velocityOf (fst (finish e t)) = calculateVelocity (history (snd (finish e t)))
     \<and> state (snd (finish e t)) = fst (finish e t)"
  using move_velocity [of t e]
  by (cases "move e t") (simp add: finish_def velocityOf_def Let_def)

lemma velocityInv_call: "velocityInv t \<Longrightarrow> velocityInv (call t c)"
proof (cases c)
  case (CallStart e)
  then show ?thesis
    by (simp add: velocityInv_def start_def Let_def velocityOf_def getInitialState_def
        calculateVelocity_def)
next
  case (CallMove e)
  assume "velocityInv t"
  from move_velocity [OF this, of e] CallMove show ?thesis
    by (simp add: velocityInv_def)
next
  case (CallEnd e)
  assume "velocityInv t"
  from finish_velocity [OF this, of e] CallEnd show ?thesis
    by (simp add: velocityInv_def)
next
  case CallReset
  then show ?thesis
    by (simp add: velocityInv_def reset_def velocityOf_def getInitialState_def calculateVelocity_def)
qed

lemma velocityInv_foldl: "velocityInv t \<Longrightarrow> velocityInv (foldl call t calls)"
  by (induction calls arbitrary: t) (simp_all add: velocityInv_call)

lemma velocityInv_reachable: "velocityInv (trackerAfter calls)"
  by (simp add: trackerAfter_def velocityInv_foldl velocityInv_new)

lemmas tracker_defs = trackerAfter_def newPointerTracker_def getInitialState_def start_def
  move_def finish_def sampleOf_def pointerAt_def maxHistoryLength_def Let_def

lemma exampleCalls_history:
  "history (snd (finish (pointerAt 150 230 1050) (trackerAfter exampleCalls))) =
     [\<lparr>sampleX = Fin 100, sampleY = Fin 200, sampleTime = Fin 1000\<rparr>,
      \<lparr>sampleX = Fin 150, sampleY = Fin 250, sampleTime = Fin 1050\<rparr>,
      \<lparr>sampleX = Fin 150, sampleY = Fin 230, sampleTime = Fin 1050\<rparr>]"
  by (simp add: exampleCalls_def tracker_defs split: prod.splits)

lemma sameTime_history:
  "history (snd (move (pointerAt 130 260 1000) (trackerAfter [CallStart (pointerAt 100 200 1000)]))) =
     [\<lparr>sampleX = Fin 100, sampleY = Fin 200, sampleTime = Fin 1000\<rparr>,
      \<lparr>sampleX = Fin 130, sampleY = Fin 260, sampleTime = Fin 1000\<rparr>]"
  by (simp add: tracker_defs split: prod.splits)

text \<open>
  Claim C5. For every tracker reachable from a new one by calls of \<open>start\<close>, \<open>move\<close>,
  \<open>end\<close> and \<open>reset\<close>, the velocity pair of the state that \<open>move\<close> or \<open>end\<close> returns is
  exactly (0, 0) when the history after the call holds fewer than two samples or the time
  span between its oldest and newest sample is 0, and otherwise the differences of their
  positions divided by that time span.
\<close>

theorem tracker_velocity:
  "velocityOf (fst (move e (trackerAfter calls))) =
     slopeOf (history (snd (move e (trackerAfter calls)))) \<and>
   velocityOf (fst (finish e (trackerAfter calls))) =
     slopeOf (history (snd (finish e (trackerAfter calls))))"
  using move_velocity [OF velocityInv_reachable, of e calls]
    finish_velocity [OF velocityInv_reachable, of e calls]
  by (simp add: calculateVelocity_slope)

theorem tracker_velocity_witness:
  "velocityOf (fst (finish (pointerAt 150 230 1050) (trackerAfter exampleCalls))) =
     (Fin 1, Fin (3 / 5)) \<and>
   velocityOf (fst (move (pointerAt 130 260 1000) (trackerAfter [CallStart (pointerAt 100 200 1000)]))) =
     (Fin 0, Fin 0)"
  using tracker_velocity [of "pointerAt 150 230 1050" exampleCalls]
    tracker_velocity [of "pointerAt 130 260 1000" "[CallStart (pointerAt 100 200 1000)]"]
  by (simp add: exampleCalls_history sameTime_history slopeOf_def)


section \<open>The direction of a gesture\<close>

lemma getDirection_none: "\<bar>dx\<bar> < Fin 5 \<Longrightarrow> \<bar>dy\<bar> < Fin 5 \<Longrightarrow> getDirection dx dy = None"
  by (simp add: getDirection_def Let_def)

lemma getDirection_horizontal:
  "\<not> (\<bar>dx\<bar> < Fin 5 \<and> \<bar>dy\<bar> < Fin 5) \<Longrightarrow> \<bar>dy\<bar> < \<bar>dx\<bar> \<Longrightarrow>
   getDirection dx dy = (if Fin 0 < dx then Some Right else Some Left)"
  by (auto simp: getDirection_def Let_def)

lemma getDirection_vertical:
  "\<not> (\<bar>dx\<bar> < Fin 5 \<and> \<bar>dy\<bar> < Fin 5) \<Longrightarrow> \<not> \<bar>dy\<bar> < \<bar>dx\<bar> \<Longrightarrow>
   getDirection dx dy = (if Fin 0 < dy then Some Down else Some Up)"
  by (auto simp: getDirection_def Let_def)

lemma move_direction:
  "isDragging (state t) \<Longrightarrow>
   deltaX (fst (move e t)) = clientX e - startX (state t) \<and>
   deltaY (fst (move e t)) = clientY e - startY (state t) \<and>
   direction (fst (move e t)) = getDirection (deltaX (fst (move e t))) (deltaY (fst (move e t)))"
  by (simp add: move_def Let_def split: prod.splits)

text \<open>
  Claim C6. The direction is none when both \<open>|dx|\<close> and \<open>|dy|\<close> are below 5. Otherwise it
  is \<open>right\<close> or \<open>left\<close> when \<open>|dx|\<close> is the larger, by the sign of \<open>dx\<close>, and \<open>down\<close> or \<open>up\<close>
  when \<open>|dy|\<close> is the larger, by the sign of \<open>dy\<close>. A \<open>move\<close> on a dragging tracker reports
  the direction of the deltas it reports, which are the event's position minus the start
  position.
\<close>

theorem getDirection_axis:
  "(\<bar>dx\<bar> < Fin 5 \<and> \<bar>dy\<bar> < Fin 5 \<longrightarrow> getDirection dx dy = None) \<and>
   (\<not> (\<bar>dx\<bar> < Fin 5 \<and> \<bar>dy\<bar> < Fin 5) \<longrightarrow>
      (\<bar>dy\<bar> < \<bar>dx\<bar> \<and> Fin 0 < dx \<longrightarrow> getDirection dx dy = Some Right) \<and>
      (\<bar>dy\<bar> < \<bar>dx\<bar> \<and> dx < Fin 0 \<longrightarrow> getDirection dx dy = Some Left) \<and>
      (\<bar>dx\<bar> < \<bar>dy\<bar> \<and> Fin 0 < dy \<longrightarrow> getDirection dx dy = Some Down) \<and>
      (\<bar>dx\<bar> < \<bar>dy\<bar> \<and> dy < Fin 0 \<longrightarrow> getDirection dx dy = Some Up)) \<and>
   (isDragging (state t) \<longrightarrow>
      deltaX (fst (move e t)) = clientX e - startX (state t) \<and>
      deltaY (fst (move e t)) = clientY e - startY (state t) \<and>
      direction (fst (move e t)) = getDirection (deltaX (fst (move e t))) (deltaY (fst (move e t))))"
proof (intro conjI impI)
  assume "\<bar>dx\<bar> < Fin 5 \<and> \<bar>dy\<bar> < Fin 5"
  then show "getDirection dx dy = None" by (simp add: getDirection_none)
next
  assume "\<not> (\<bar>dx\<bar> < Fin 5 \<and> \<bar>dy\<bar> < Fin 5)" "\<bar>dy\<bar> < \<bar>dx\<bar> \<and> Fin 0 < dx"
  then show "getDirection dx dy = Some Right" by (simp add: getDirection_horizontal)
next
  assume "\<not> (\<bar>dx\<bar> < Fin 5 \<and> \<bar>dy\<bar> < Fin 5)" "\<bar>dy\<bar> < \<bar>dx\<bar> \<and> dx < Fin 0"
  then show "getDirection dx dy = Some Left"
    using jsnum_less_asym [of dx "Fin 0"] by (simp add: getDirection_horizontal)
next
  assume "\<not> (\<bar>dx\<bar> < Fin 5 \<and> \<bar>dy\<bar> < Fin 5)" "\<bar>dx\<bar> < \<bar>dy\<bar> \<and> Fin 0 < dy"
  then show "getDirection dx dy = Some Down"
    using jsnum_less_asym [of "\<bar>dx\<bar>" "\<bar>dy\<bar>"] by (simp add: getDirection_vertical)
next
  assume "\<not> (\<bar>dx\<bar> < Fin 5 \<and> \<bar>dy\<bar> < Fin 5)" "\<bar>dx\<bar> < \<bar>dy\<bar> \<and> dy < Fin 0"
  then show "getDirection dx dy = Some Up"
    using jsnum_less_asym [of "\<bar>dx\<bar>" "\<bar>dy\<bar>"] jsnum_less_asym [of dy "Fin 0"]
    by (simp add: getDirection_vertical)
next
  assume "isDragging (state t)"
  then show "deltaX (fst (move e t)) = clientX e - startX (state t)"
    and "deltaY (fst (move e t)) = clientY e - startY (state t)"
    and "direction (fst (move e t)) = getDirection (deltaX (fst (move e t))) (deltaY (fst (move e t)))"
    using move_direction [of t e] by simp_all
qed

theorem getDirection_axis_witness:
  "\<bar>Fin 3\<bar> < Fin 5 \<and> \<bar>Fin (- 4)\<bar> < Fin 5 \<and> getDirection (Fin 3) (Fin (- 4)) = None \<and>
   \<not> (\<bar>Fin 100\<bar> < Fin 5 \<and> \<bar>Fin 0\<bar> < Fin 5) \<and> \<bar>Fin 0\<bar> < \<bar>Fin 100\<bar> \<and> Fin 0 < Fin 100 \<and>
   getDirection (Fin 100) (Fin 0) = Some Right \<and>
   getDirection (Fin (- 100)) (Fin 30) = Some Left \<and>
   getDirection (Fin 0) (Fin 100) = Some Down \<and>
   getDirection (Fin 20) (Fin (- 100)) = Some Up \<and>
   isDragging (state (trackerAfter exampleCalls)) \<and>
   direction (fst (move (pointerAt 300 230 1100) (trackerAfter exampleCalls))) = Some Right"
proof -
  have a: "getDirection (Fin 3) (Fin (- 4)) = None"
    using getDirection_axis [of "Fin 3" "Fin (- 4)", THEN conjunct1] by simp
  have b: "getDirection (Fin 100) (Fin 0) = Some Right"
    using getDirection_axis [of "Fin 100" "Fin 0", THEN conjunct2, THEN conjunct1] by simp
  have c: "getDirection (Fin (- 100)) (Fin 30) = Some Left"
    using getDirection_axis [of "Fin (- 100)" "Fin 30", THEN conjunct2, THEN conjunct1] by simp
  have d: "getDirection (Fin 0) (Fin 100) = Some Down"
    using getDirection_axis [of "Fin 0" "Fin 100", THEN conjunct2, THEN conjunct1] by simp
  have e: "getDirection (Fin 20) (Fin (- 100)) = Some Up"
    using getDirection_axis [of "Fin 20" "Fin (- 100)", THEN conjunct2, THEN conjunct1] by simp
  have f: "isDragging (state (trackerAfter exampleCalls))"
    and g: "startX (state (trackerAfter exampleCalls)) = Fin 100"
      "startY (state (trackerAfter exampleCalls)) = Fin 200"
    by (simp_all add: exampleCalls_def tracker_defs split: prod.splits)
  from getDirection_axis [of _ _ "trackerAfter exampleCalls" "pointerAt 300 230 1100",
      THEN conjunct2, THEN conjunct2, rule_format, OF f]
  have "direction (fst (move (pointerAt 300 230 1100) (trackerAfter exampleCalls))) =
      getDirection (Fin 200) (Fin 30)"
    by (simp add: g pointerAt_def)
  moreover have "getDirection (Fin 200) (Fin 30) = Some Right"
    using getDirection_axis [of "Fin 200" "Fin 30", THEN conjunct2, THEN conjunct1] by simp
  ultimately show ?thesis using a b c d e f by simp
qed

section \<open>One tick of the spring\<close>

lemma tick_settles:
  "settles t s \<Longrightarrow>
   tick t s = s\<lparr>lastTime := t, currentVelocity := Fin 0, currentValue := targetValue s,
                 isAnimating := False, emitted := emitted s @ [OnComplete]\<rparr>"
  by (auto simp: tick_def settles_def stepValue_def stepVelocity_def stepDelta_def Let_def)

lemma tick_continues:
  "\<not> settles t s \<Longrightarrow>
   tick t s = s\<lparr>lastTime := t, currentVelocity := stepVelocity t s, currentValue := stepValue t s,
                 emitted := emitted s @ [OnUpdate (stepValue t s) (stepVelocity t s)],
                 scheduled := scheduled s @ [nextHandle s], nextHandle := Suc (nextHandle s),
                 rafId := Some (nextHandle s)\<rparr>"
  by (auto simp: tick_def settles_def stepValue_def stepVelocity_def stepDelta_def Let_def
      requestAnimationFrame_def)

lemmas spring_defs = setTargetDefault_def setTarget_def startLoop_def requestAnimationFrame_def
  newSpringAnimation_def Let_def

lemma stiffStart_eq:
  "stiffStart = \<lparr>currentValue = Fin 0, currentVelocity = Fin 0, targetValue = Fin 100,
      config = stiff, rafId = Some 1, lastTime = Fin 0, isAnimating = True, scheduled = [1],
      nextHandle = 2, emitted = []\<rparr>"
  by (simp add: stiffStart_def spring_defs)

lemma settleStart_eq:
  "settleStart = \<lparr>currentValue = Fin 0, currentVelocity = Fin 0, targetValue = Fin (1 / 1000),
      config = gentle, rafId = Some 1, lastTime = Fin 0, isAnimating = True, scheduled = [1],
      nextHandle = 2, emitted = []\<rparr>"
  by (simp add: settleStart_def spring_defs)

lemma stiff_first_step:
  "stepDelta (Fin 64) stiffStart = Fin (64 / 1000)"
  "stepVelocity (Fin 64) stiffStart = Fin 1344"
  "stepValue (Fin 64) stiffStart = Fin (86016 / 1000)"
  by (simp_all add: stiffStart_eq stepValue_def stepVelocity_def stepDelta_def stiff_def
      Math_min_def Let_def)

lemma settle_first_step:
  "stepVelocity (Fin 16) settleStart = Fin (24 / 12500)"
  "stepValue (Fin 16) settleStart = Fin (12 / 390625)"
  "settles (Fin 16) settleStart"
  by (simp_all add: settleStart_eq settles_def stepValue_def stepVelocity_def stepDelta_def
      gentle_def Math_min_def Let_def)

text \<open>
  Claim C4, amended. Every tick takes the step \<open>dt = min(currentTime - lastTime, 64) / 1000\<close>,
  computes the spring force \<open>-stiffness * (value - target)\<close>, the damping force
  \<open>-damping * velocity\<close>, the acceleration \<open>(springForce + dampingForce) / mass\<close>, the new
  velocity \<open>velocity + acceleration * dt\<close> and the new value \<open>value + velocity' * dt\<close>, and
  records the current time. Unless both the new distance to the target and the new speed
  are under the precision, it stores the new value and velocity and calls \<open>onUpdate\<close> with
  them; when both are, it stores the target and a zero velocity and calls \<open>onComplete\<close>
  instead, with no \<open>onUpdate\<close>.
\<close>

theorem tick_integrates:
  "(let dt = Math_min (t - lastTime s) (Fin 64) / Fin 1000;
        springForce = (- stiffness (config s)) * (currentValue s - targetValue s);
        dampingForce = (- damping (config s)) * currentVelocity s;
        acceleration = (springForce + dampingForce) / mass (config s);
        velocity' = currentVelocity s + acceleration * dt;
        value' = currentValue s + velocity' * dt
    in lastTime (tick t s) = t \<and>
       (if \<bar>value' - targetValue s\<bar> < precision (config s) \<and> \<bar>velocity'\<bar> < precision (config s)
        then currentValue (tick t s) = targetValue s \<and> currentVelocity (tick t s) = Fin 0 \<and>
             emitted (tick t s) = emitted s @ [OnComplete]
        else currentValue (tick t s) = value' \<and> currentVelocity (tick t s) = velocity' \<and>
             emitted (tick t s) = emitted s @ [OnUpdate value' velocity']))"
proof (cases "settles t s")
  case True
  from tick_settles [OF True] True show ?thesis
    by (simp add: settles_def stepValue_def stepVelocity_def stepDelta_def Let_def)
next
  case False
  from tick_continues [OF False] False show ?thesis
    by (simp add: settles_def stepValue_def stepVelocity_def stepDelta_def Let_def)
qed

theorem tick_integrates_witness:
  "lastTime (tick (Fin 64) stiffStart) = Fin 64 \<and>
   currentVelocity (tick (Fin 64) stiffStart) = Fin 1344 \<and>
   currentValue (tick (Fin 64) stiffStart) = Fin (86016 / 1000) \<and>
   emitted (tick (Fin 64) stiffStart) = [OnUpdate (Fin (86016 / 1000)) (Fin 1344)]"
  using tick_integrates [of "Fin 64" stiffStart]
  by (simp add: stiffStart_eq stiff_def Math_min_def Let_def)

text \<open>
  Claim C4 as stated fails on the completing tick. From rest at 0 with the target 0.001
  and the gentle preset, the first tick at 16 ms integrates to the value 12/390625 and
  the velocity 24/12500, both within the precision: it calls \<open>onComplete\<close> and nothing else,
  and stores the value 0.001 and the velocity 0.
\<close>

theorem tick_integrates_counterexample:
  "stepValue (Fin 16) settleStart = Fin (12 / 390625) \<and>
   stepVelocity (Fin 16) settleStart = Fin (24 / 12500) \<and>
   emitted (tick (Fin 16) settleStart) = [OnComplete] \<and>
   currentValue (tick (Fin 16) settleStart) = Fin (1 / 1000) \<and>
   currentVelocity (tick (Fin 16) settleStart) = Fin 0"
  by (simp add: settle_first_step tick_settles) (simp add: settleStart_eq)


section \<open>The integration as a linear recurrence\<close>

text \<open>
  Under a constant step the distance to the target obeys \<open>e (n + 2) = T * e (n + 1) - D * e n\<close>
  with \<open>D = 1 - b\<close> and \<open>T = 2 - b - q\<close>. A sequence with such a recurrence tends to 0 when
  \<open>D < 1\<close> and \<open>\<bar>T\<bar> < 1 + D\<close>: with complex roots the quadratic form
  \<open>s (n + 1)\<^sup>2 - T * s (n + 1) * s n + D * (s n)\<^sup>2\<close> is positive definite and shrinks by the
  factor \<open>D\<close> at every step; with real roots both lie strictly between -1 and 1.
\<close>

lemma square_tendsto_0:
  fixes s :: "nat \<Rightarrow> real"
  assumes "(\<lambda>n. (s n)\<^sup>2) \<longlonglongrightarrow> 0"
  shows "s \<longlonglongrightarrow> 0"
proof -
  from tendsto_real_sqrt [OF assms] have "(\<lambda>n. \<bar>s n\<bar>) \<longlonglongrightarrow> 0" by simp
  then show ?thesis by (simp only: tendsto_rabs_zero_iff)
qed

lemma recurrence_complex_roots:
  fixes s :: "nat \<Rightarrow> real"
  assumes rec: "\<And>n. s (Suc (Suc n)) = T * s (Suc n) - D * s n"
    and D: "D < 1" and disc: "T\<^sup>2 < 4 * D"
  shows "s \<longlonglongrightarrow> 0"
proof -
  define Q where "Q n = (s (Suc n))\<^sup>2 - T * s (Suc n) * s n + D * (s n)\<^sup>2" for n
  define g where "g = D - T\<^sup>2 / 4"
  have "0 \<le> T\<^sup>2" by simp
  with disc have D0: "0 < D" by linarith
  from disc have g: "0 < g" by (simp add: g_def)
  have step: "Q (Suc n) = D * Q n" for n
    unfolding Q_def rec by (simp add: power2_eq_square algebra_simps)
  have Qn: "Q n = D ^ n * Q 0" for n
    by (induction n) (simp_all add: step)
  have low: "g * (s n)\<^sup>2 \<le> Q n" for n
  proof -
    have "Q n - g * (s n)\<^sup>2 = (s (Suc n) - T / 2 * s n)\<^sup>2"
      unfolding Q_def g_def by (simp add: power2_eq_square algebra_simps)
    moreover have "0 \<le> (s (Suc n) - T / 2 * s n)\<^sup>2" by simp
    ultimately show ?thesis by linarith
  qed
  have up: "(s n)\<^sup>2 \<le> D ^ n * (Q 0 / g)" for n
  proof -
    have "(s n)\<^sup>2 \<le> Q n / g"
      unfolding pos_le_divide_eq [OF g] using low [of n] by (subst mult.commute)
    then show ?thesis by (simp add: Qn [of n])
  qed
  have "(\<lambda>n. D ^ n) \<longlonglongrightarrow> 0"
    using D0 D by (intro LIMSEQ_realpow_zero) simp_all
  then have "(\<lambda>n. D ^ n * (Q 0 / g)) \<longlonglongrightarrow> 0 * (Q 0 / g)"
    by (intro tendsto_mult tendsto_const)
  then have lim: "(\<lambda>n. D ^ n * (Q 0 / g)) \<longlonglongrightarrow> 0" by simp
  have "(\<lambda>n. (s n)\<^sup>2) \<longlonglongrightarrow> 0"
  proof (rule tendsto_sandwich [OF _ _ tendsto_const lim])
    show "\<forall>\<^sub>F n in sequentially. 0 \<le> (s n)\<^sup>2" by simp
    show "\<forall>\<^sub>F n in sequentially. (s n)\<^sup>2 \<le> D ^ n * (Q 0 / g)"
      by (intro always_eventually allI up)
  qed
  then show ?thesis by (rule square_tendsto_0)
qed

lemma recurrence_real_roots:
  fixes s :: "nat \<Rightarrow> real"
  assumes rec: "\<And>n. s (Suc (Suc n)) = T * s (Suc n) - D * s n"
    and disc: "4 * D \<le> T\<^sup>2" and up: "T < 1 + D" and lo: "- T < 1 + D" and D: "D < 1"
  shows "s \<longlonglongrightarrow> 0"
proof -
  define r where "r = sqrt (T\<^sup>2 - 4 * D)"
  define l1 where "l1 = (T + r) / 2"
  define l2 where "l2 = (T - r) / 2"
  define w where "w n = s (Suc n) - l1 * s n" for n
  define q where "q = max \<bar>l1\<bar> \<bar>l2\<bar>"
  have r0: "0 \<le> r" and r2: "r\<^sup>2 = T\<^sup>2 - 4 * D"
    using disc by (simp_all add: r_def)
  have sum: "l1 + l2 = T" unfolding l1_def l2_def by argo
  have prod: "l1 * l2 = D"
  proof -
    have "(T + r) * (T - r) = T\<^sup>2 - r\<^sup>2"
      by (simp add: power2_eq_square algebra_simps)
    then have "(T + r) * (T - r) = 4 * D" by (simp add: r2)
    then show ?thesis by (simp add: l1_def l2_def)
  qed
  from up lo D have T2: "T < 2" "- 2 < T" by linarith+
  have ea: "(2 - T)\<^sup>2 = 4 - 4 * T + T\<^sup>2" by (simp add: power2_diff)
  have "T\<^sup>2 - 4 * D < 4 - 4 * T + T\<^sup>2" using up by argo
  then have "r\<^sup>2 < (2 - T)\<^sup>2" by (simp only: r2 ea)
  then have ra: "r < 2 - T"
    by (rule power2_less_imp_less) (use T2 in simp)
  have eb: "(2 + T)\<^sup>2 = 4 + 4 * T + T\<^sup>2" by (simp add: power2_sum)
  have "T\<^sup>2 - 4 * D < 4 + 4 * T + T\<^sup>2" using lo by argo
  then have "r\<^sup>2 < (2 + T)\<^sup>2" by (simp only: r2 eb)
  then have rb: "r < 2 + T"
    by (rule power2_less_imp_less) (use T2 in simp)
  from ra rb r0 have l: "\<bar>l1\<bar> < 1" "\<bar>l2\<bar> < 1"
    by (simp_all add: l1_def l2_def abs_less_iff)
  then have q: "0 \<le> q" "q < 1" "\<bar>l1\<bar> \<le> q" "\<bar>l2\<bar> \<le> q"
    by (simp_all add: q_def)
  have wstep: "w (Suc n) = l2 * w n" for n
    unfolding w_def rec by (simp add: sum [symmetric] prod [symmetric] algebra_simps)
  have wn: "w n = l2 ^ n * w 0" for n
    by (induction n) (simp_all add: wstep)
  have wb: "\<bar>w n\<bar> \<le> q ^ n * \<bar>w 0\<bar>" for n
  proof -
    have "\<bar>w n\<bar> = \<bar>l2\<bar> ^ n * \<bar>w 0\<bar>" by (simp add: wn [of n] abs_mult power_abs)
    also have "\<dots> \<le> q ^ n * \<bar>w 0\<bar>"
      using q by (intro mult_right_mono power_mono) simp_all
    finally show ?thesis .
  qed
  have sstep: "\<bar>s (Suc n)\<bar> \<le> q * \<bar>s n\<bar> + q ^ n * \<bar>w 0\<bar>" for n
  proof -
    have "s (Suc n) = l1 * s n + w n" by (simp add: w_def)
    then have "\<bar>s (Suc n)\<bar> \<le> \<bar>l1\<bar> * \<bar>s n\<bar> + \<bar>w n\<bar>"
      by (simp add: abs_mult [symmetric])
    also have "\<bar>l1\<bar> * \<bar>s n\<bar> \<le> q * \<bar>s n\<bar>"
      using q by (intro mult_right_mono) simp_all
    finally show ?thesis using wb [of n] by linarith
  qed
  have bound: "\<bar>s (Suc n)\<bar> \<le> q ^ Suc n * \<bar>s 0\<bar> + (real n * q ^ n + q ^ n) * \<bar>w 0\<bar>" for n
  proof (induction n)
    case 0
    from sstep [of 0] show ?case by simp
  next
    case (Suc n)
    have "\<bar>s (Suc (Suc n))\<bar> \<le> q * \<bar>s (Suc n)\<bar> + q ^ Suc n * \<bar>w 0\<bar>"
      by (rule sstep)
    also have "q * \<bar>s (Suc n)\<bar> \<le>
        q * (q ^ Suc n * \<bar>s 0\<bar> + (real n * q ^ n + q ^ n) * \<bar>w 0\<bar>)"
      using Suc.IH q(1) by (rule mult_left_mono)
    finally show ?case by (simp add: algebra_simps)
  qed
  have p: "(\<lambda>n. q ^ n) \<longlonglongrightarrow> 0"
    using q by (intro LIMSEQ_realpow_zero)
  have np: "(\<lambda>n. real n * q ^ n) \<longlonglongrightarrow> 0"
    using q by (intro powser_times_n_limit_0) simp
  have "(\<lambda>n. q ^ Suc n * \<bar>s 0\<bar> + (real n * q ^ n + q ^ n) * \<bar>w 0\<bar>) \<longlonglongrightarrow>
      0 * \<bar>s 0\<bar> + (0 + 0) * \<bar>w 0\<bar>"
    by (intro tendsto_add tendsto_mult tendsto_const LIMSEQ_Suc [OF p] p np)
  then have lim: "(\<lambda>n. q ^ Suc n * \<bar>s 0\<bar> + (real n * q ^ n + q ^ n) * \<bar>w 0\<bar>) \<longlonglongrightarrow> 0"
    by simp
  have "(\<lambda>n. \<bar>s (Suc n)\<bar>) \<longlonglongrightarrow> 0"
  proof (rule tendsto_sandwich [OF _ _ tendsto_const lim])
    show "\<forall>\<^sub>F n in sequentially. 0 \<le> \<bar>s (Suc n)\<bar>" by simp
    show "\<forall>\<^sub>F n in sequentially.
        \<bar>s (Suc n)\<bar> \<le> q ^ Suc n * \<bar>s 0\<bar> + (real n * q ^ n + q ^ n) * \<bar>w 0\<bar>"
      by (intro always_eventually allI bound)
  qed
  then have "(\<lambda>n. s (Suc n)) \<longlonglongrightarrow> 0"
    by (simp only: tendsto_rabs_zero_iff)
  then show ?thesis by (rule LIMSEQ_imp_Suc)
qed

lemma recurrence_tendsto_0:
  fixes s :: "nat \<Rightarrow> real"
  assumes rec: "\<And>n. s (Suc (Suc n)) = T * s (Suc n) - D * s n"
    and up: "T < 1 + D" and lo: "- T < 1 + D" and D: "D < 1"
  shows "s \<longlonglongrightarrow> 0"
proof (cases "T\<^sup>2 < 4 * D")
  case True
  with rec D show ?thesis by (rule recurrence_complex_roots)
next
  case False
  then have "4 * D \<le> T\<^sup>2" by simp
  with rec show ?thesis using up lo D by (rule recurrence_real_roots)
qed

lemma springStep_simps:
  "snd (springStep k c m dt target z) = snd z + (- k * (fst z - target) + - c * snd z) / m * dt"
  "fst (springStep k c m dt target z) = fst z + snd (springStep k c m dt target z) * dt"
  by (simp_all add: springStep_def Let_def)

lemma spring_recurrence:
  fixes e v :: "nat \<Rightarrow> real"
  assumes v: "\<And>n. v (Suc n) = v n + (- k * e n + - c * v n) / m * dt"
    and e: "\<And>n. e (Suc n) = e n + v (Suc n) * dt"
  shows "e (Suc (Suc n)) = (2 - c * dt / m - k * dt * dt / m) * e (Suc n) - (1 - c * dt / m) * e n"
proof -
  define b where "b = c * dt / m"
  define q where "q = k * dt * dt / m"
  have "v (Suc (Suc n)) = v (Suc n) - (k * dt / m) * e (Suc n) - b * v (Suc n)"
    unfolding v [of "Suc n"] b_def
    by (simp add: algebra_simps add_divide_distrib diff_divide_distrib)
  then have "v (Suc (Suc n)) * dt = (v (Suc n) - (k * dt / m) * e (Suc n) - b * v (Suc n)) * dt"
    by (simp only:)
  also have "\<dots> = v (Suc n) * dt - q * e (Suc n) - b * (v (Suc n) * dt)"
    unfolding q_def by (simp add: algebra_simps)
  finally have "v (Suc (Suc n)) * dt = v (Suc n) * dt - q * e (Suc n) - b * (v (Suc n) * dt)" .
  moreover have "v (Suc n) * dt = e (Suc n) - e n"
    using e [of n] by simp
  ultimately have "v (Suc (Suc n)) * dt = (e (Suc n) - e n) - q * e (Suc n) - b * (e (Suc n) - e n)"
    by simp
  with e [of "Suc n"] have "e (Suc (Suc n)) = (2 - b - q) * e (Suc n) - (1 - b) * e n"
    by (simp add: algebra_simps)
  then show ?thesis by (simp only: b_def q_def)
qed

lemma spring_orbit_settles:
  assumes m: "0 < m" and k: "0 < k" and c: "0 < c" and dt: "0 < dt" and p: "0 < p"
    and st: "stableStep k c m dt"
  shows "\<exists>N. \<bar>fst ((springStep k c m dt target ^^ Suc N) z) - target\<bar> < p \<and>
             \<bar>snd ((springStep k c m dt target ^^ Suc N) z)\<bar> < p"
proof -
  define e where "e n = fst ((springStep k c m dt target ^^ n) z) - target" for n
  define v where "v n = snd ((springStep k c m dt target ^^ n) z)" for n
  define T where "T = 2 - c * dt / m - k * dt * dt / m"
  define D where "D = 1 - c * dt / m"
  have vs: "v (Suc n) = v n + (- k * e n + - c * v n) / m * dt" for n
    by (simp add: v_def e_def springStep_simps)
  have es: "e (Suc n) = e n + v (Suc n) * dt" for n
    by (simp add: v_def e_def springStep_simps)
  have rec: "e (Suc (Suc n)) = T * e (Suc n) - D * e n" for n
    unfolding T_def D_def using vs es by (rule spring_recurrence)
  have b: "0 < c * dt / m" using m c dt by simp
  have q: "0 < k * dt * dt / m" using m k dt by simp
  from st have s1: "c * dt / m < 2" and s2: "k * dt * dt / m + 2 * (c * dt / m) < 4"
    by (simp_all add: stableStep_def)
  have "T < 1 + D" unfolding T_def D_def using q by argo
  moreover have "- T < 1 + D" unfolding T_def D_def using s2 by argo
  moreover have "D < 1" unfolding D_def using b by argo
  ultimately have elim: "e \<longlonglongrightarrow> 0"
    using rec by (intro recurrence_tendsto_0 [of e T D])
  have "(\<lambda>n. (e (Suc n) - e n) / dt) \<longlonglongrightarrow> (0 - 0) / dt"
    by (intro tendsto_divide tendsto_diff tendsto_const LIMSEQ_Suc [OF elim] elim) (use dt in simp)
  moreover have "(e (Suc n) - e n) / dt = v (Suc n)" for n
    using dt by (simp add: es)
  ultimately have vlim: "(\<lambda>n. v (Suc n)) \<longlonglongrightarrow> 0" by simp
  from LIMSEQ_D [OF LIMSEQ_Suc [OF elim] p] obtain N1 where n1: "\<forall>n\<ge>N1. \<bar>e (Suc n)\<bar> < p"
    by auto
  from LIMSEQ_D [OF vlim p] obtain N2 where n2: "\<forall>n\<ge>N2. \<bar>v (Suc n)\<bar> < p"
    by auto
  from n1 n2 have "\<bar>e (Suc (max N1 N2))\<bar> < p \<and> \<bar>v (Suc (max N1 N2))\<bar> < p" by simp
  then show ?thesis unfolding e_def v_def by blast
qed

section \<open>The tick loop\<close>

lemma frame_running: "running s \<Longrightarrow> frame t s = tick t (s\<lparr>scheduled := []\<rparr>)"
  by (auto simp: running_def frame_def)

lemma settles_scheduled [simp]: "settles t (s\<lparr>scheduled := q\<rparr>) = settles t s"
  by (simp add: settles_def stepValue_def stepVelocity_def stepDelta_def)

lemma step_scheduled [simp]:
  "stepValue t (s\<lparr>scheduled := q\<rparr>) = stepValue t s"
  "stepVelocity t (s\<lparr>scheduled := q\<rparr>) = stepVelocity t s"
  by (simp_all add: stepValue_def stepVelocity_def stepDelta_def)

lemma frame_settles:
  assumes "running s" "settles t s"
  shows "scheduled (frame t s) = []" "\<not> isAnimating (frame t s)"
    "currentValue (frame t s) = targetValue s" "currentVelocity (frame t s) = Fin 0"
    "emitted (frame t s) = emitted s @ [OnComplete]" "targetValue (frame t s) = targetValue s"
  using assms by (simp_all add: frame_running tick_settles)

lemma frame_continues:
  assumes "running s" "\<not> settles t s"
  shows "running (frame t s)" "targetValue (frame t s) = targetValue s"
    "emitted (frame t s) = emitted s @ [OnUpdate (stepValue t s) (stepVelocity t s)]"
  using assms by (simp_all add: frame_running tick_continues running_def)

lemma completions_append [simp]:
  "completions (evs @ [OnComplete]) = Suc (completions evs)"
  "completions (evs @ [OnUpdate a b]) = completions evs"
  by (simp_all add: completions_def)

lemma animate_reached:
  assumes "animate clock n s = Some y"
  shows "(scheduled s = [] \<longrightarrow> y = (n, s)) \<and> (running s \<longrightarrow> reached s n y)"
proof (rule animate.raw_induct
    [where P = "\<lambda>clock n s y. (scheduled s = [] \<longrightarrow> y = (n, s)) \<and> (running s \<longrightarrow> reached s n y)",
     OF _ assms])
  fix animate' :: "(nat \<Rightarrow> jsnum) \<Rightarrow> nat \<Rightarrow> SpringAnimation \<Rightarrow> (nat \<times> SpringAnimation) option"
  fix clock n s y
  assume ih: "\<And>clock n s y. animate' clock n s = Some y \<Longrightarrow>
      (scheduled s = [] \<longrightarrow> y = (n, s)) \<and> (running s \<longrightarrow> reached s n y)"
    and eq: "(if scheduled s = [] then Some (n, s)
       else animate' clock (Suc n) (frame (clock n) s)) = Some y"
  show "(scheduled s = [] \<longrightarrow> y = (n, s)) \<and> (running s \<longrightarrow> reached s n y)"
  proof (intro conjI impI)
    assume "scheduled s = []"
    with eq show "y = (n, s)" by simp
  next
    assume r: "running s"
    then have "scheduled s \<noteq> []" by (auto simp: running_def)
    with eq have run: "animate' clock (Suc n) (frame (clock n) s) = Some y" by simp
    note step = ih [OF run]
    show "reached s n y"
    proof (cases "settles (clock n) s")
      case True
      note f = frame_settles [OF r True]
      from step f(1) have "y = (Suc n, frame (clock n) s)" by simp
      with f show ?thesis by (simp add: reached_def)
    next
      case False
      note f = frame_continues [OF r False]
      from step f(1) have "reached (frame (clock n) s) (Suc n) y" by simp
      with f show ?thesis by (auto simp: reached_def)
    qed
  qed
qed

lemma setTarget_idle:
  assumes "\<not> isAnimating s0" "scheduled s0 = []"
  shows "running (setTarget v vel now s0)" "targetValue (setTarget v vel now s0) = v"
    "emitted (setTarget v vel now s0) = emitted s0"
    "currentVelocity (setTarget v vel now s0) = vel"
    "currentValue (setTarget v vel now s0) = currentValue s0"
  using assms
  by (simp_all add: setTarget_def startLoop_def requestAnimationFrame_def running_def Let_def)

lemma animate_fuel:
  "scheduled (snd (framesFrom clock fuel n s)) = [] \<Longrightarrow>
   animate clock n s = Some (framesFrom clock fuel n s)"
proof (induction fuel arbitrary: n s)
  case 0
  then show ?case by (simp add: animate.simps)
next
  case (Suc fuel)
  show ?case
  proof (cases "scheduled s = []")
    case True
    then show ?thesis by (simp add: animate.simps)
  next
    case False
    with Suc.prems have "scheduled (snd (framesFrom clock fuel (Suc n) (frame (clock n) s))) = []"
      by simp
    from Suc.IH [OF this] False show ?thesis
      by (subst animate.simps) simp
  qed
qed

lemma stuck_frame: "stuck s \<Longrightarrow> stuck (frame (everyMs p n) s)"
  by (auto simp: stuck_def frame_def tick_def limp_def everyMs_def Let_def Math_min_def
      requestAnimationFrame_def)

lemma stuck_forever:
  assumes "animate clock n s = Some y"
  shows "clock = everyMs p \<longrightarrow> stuck s \<longrightarrow> False"
proof (rule animate.raw_induct
    [where P = "\<lambda>clock n s y. clock = everyMs p \<longrightarrow> stuck s \<longrightarrow> False", OF _ assms])
  fix animate' :: "(nat \<Rightarrow> jsnum) \<Rightarrow> nat \<Rightarrow> SpringAnimation \<Rightarrow> (nat \<times> SpringAnimation) option"
  fix clock n s y
  assume ih: "\<And>clock n s y. animate' clock n s = Some y \<Longrightarrow> clock = everyMs p \<longrightarrow> stuck s \<longrightarrow> False"
    and eq: "(if scheduled s = [] then Some (n, s)
       else animate' clock (Suc n) (frame (clock n) s)) = Some y"
  show "clock = everyMs p \<longrightarrow> stuck s \<longrightarrow> False"
  proof (intro impI)
    assume c: "clock = everyMs p" and st: "stuck s"
    from st have "scheduled s \<noteq> []" by (auto simp: stuck_def)
    with eq have "animate' clock (Suc n) (frame (clock n) s) = Some y" by simp
    moreover have "stuck (frame (clock n) s)" using c st by (simp add: stuck_frame)
    ultimately show False using ih c by blast
  qed
qed

lemma framesFrom_numeral:
  "framesFrom clock (numeral k) n s =
     (if scheduled s = [] then (n, s) else framesFrom clock (pred_numeral k) (Suc n) (frame (clock n) s))"
  by (simp add: numeral_eq_Suc)

lemmas run_defs = frame_def tick_def requestAnimationFrame_def Math_min_def everyMs_def Let_def

lemma slowStart_eq:
  "slowStart = \<lparr>currentValue = Fin 0, currentVelocity = Fin 0, targetValue = Fin (1 / 400),
      config = slow, rafId = Some 1, lastTime = Fin 0, isAnimating = True, scheduled = [1],
      nextHandle = 2, emitted = []\<rparr>"
  by (simp add: slowStart_def spring_defs)

lemma slow_run:
  "fst (framesFrom (everyMs 16) 6 0 slowStart) = 4"
  "scheduled (snd (framesFrom (everyMs 16) 6 0 slowStart)) = []"
  by (simp_all add: slowStart_eq slow_def run_defs framesFrom_numeral)

lemma everyMs_framesAfter: "everyMs period = framesAfter 0 period"
  by (simp add: fun_eq_iff everyMs_def framesAfter_def)

lemma following_step:
  assumes f: "following k c m p now period target z n s" and m: "m \<noteq> 0"
  shows "stepVelocity (framesAfter now period n) s =
      Fin (snd ((springStep k c m (min period 64 / 1000) target ^^ Suc n) z))"
    and "stepValue (framesAfter now period n) s =
      Fin (fst ((springStep k c m (min period 64 / 1000) target ^^ Suc n) z))"
proof -
  let ?z = "(springStep k c m (min period 64 / 1000) target ^^ n) z"
  from f have c: "config s = \<lparr>stiffness = Fin k, damping = Fin c, mass = Fin m, precision = Fin p\<rparr>"
    and t: "targetValue s = Fin target" and l: "lastTime s = Fin (now + period * real n)"
    and x: "currentValue s = Fin (fst ?z)" and v: "currentVelocity s = Fin (snd ?z)"
    by (simp_all add: following_def)
  have "now + period * real (Suc n) - (now + period * real n) = period"
    by (simp add: algebra_simps)
  then have d: "stepDelta (framesAfter now period n) s = Fin (min period 64 / 1000)"
    by (simp add: stepDelta_def framesAfter_def l Math_min_def min_def)
  show sv: "stepVelocity (framesAfter now period n) s =
      Fin (snd ((springStep k c m (min period 64 / 1000) target ^^ Suc n) z))"
    using m by (simp add: stepVelocity_def d c t x v Let_def springStep_simps)
  show "stepValue (framesAfter now period n) s =
      Fin (fst ((springStep k c m (min period 64 / 1000) target ^^ Suc n) z))"
    by (simp add: stepValue_def sv d x springStep_simps)
qed

lemma following_settles:
  assumes f: "following k c m p now period target z n s" and m: "m \<noteq> 0"
  shows "settles (framesAfter now period n) s =
      nearRest p target ((springStep k c m (min period 64 / 1000) target ^^ Suc n) z)"
proof -
  from f have c: "config s = \<lparr>stiffness = Fin k, damping = Fin c, mass = Fin m, precision = Fin p\<rparr>"
    and t: "targetValue s = Fin target"
    by (simp_all add: following_def)
  show ?thesis
    unfolding settles_def following_step [OF f m] nearRest_def by (simp add: c t)
qed

lemma following_frame:
  assumes f: "following k c m p now period target z n s" and m: "m \<noteq> 0"
    and n: "\<not> nearRest p target ((springStep k c m (min period 64 / 1000) target ^^ Suc n) z)"
  shows "following k c m p now period target z (Suc n) (frame (framesAfter now period n) s)"
proof -
  from f have r: "running s" by (simp add: following_def)
  have ns: "\<not> settles (framesAfter now period n) s"
    unfolding following_settles [OF f m] by (rule n)
  then have ns': "\<not> settles (framesAfter now period n) (s\<lparr>scheduled := []\<rparr>)" by simp
  have fr: "frame (framesAfter now period n) s = tick (framesAfter now period n) (s\<lparr>scheduled := []\<rparr>)"
    using r by (rule frame_running)
  note st = following_step [OF f m]
  from f have c: "config s = \<lparr>stiffness = Fin k, damping = Fin c, mass = Fin m, precision = Fin p\<rparr>"
    and t: "targetValue s = Fin target"
    by (simp_all add: following_def)
  show ?thesis
    unfolding fr tick_continues [OF ns'] step_scheduled st
    using r c t by (simp add: following_def running_def framesAfter_def)
qed

lemma following_ends:
  assumes m: "m \<noteq> 0"
    and last: "nearRest p target ((springStep k c m (min period 64 / 1000) target ^^ Suc N) z)"
    and first: "\<forall>j<N. \<not> nearRest p target ((springStep k c m (min period 64 / 1000) target ^^ Suc j) z)"
  shows "n \<le> N \<Longrightarrow> following k c m p now period target z n s \<Longrightarrow>
     \<exists>s'. animate (framesAfter now period) n s = Some (Suc N, s')"
proof (induction "N - n" arbitrary: n s)
  case 0
  then have e: "n = N" by simp
  with "0.prems"(2) have f: "following k c m p now period target z N s" by simp
  then have r: "running s" by (simp add: following_def)
  then have q: "scheduled s \<noteq> []" by (auto simp: running_def)
  have "settles (framesAfter now period N) s"
    unfolding following_settles [OF f m] by (rule last)
  from frame_settles(1) [OF r this] have "scheduled (frame (framesAfter now period N) s) = []" .
  then have "animate (framesAfter now period) (Suc N) (frame (framesAfter now period N) s) =
      Some (Suc N, frame (framesAfter now period N) s)"
    by (subst animate.simps) simp
  with q have "animate (framesAfter now period) N s = Some (Suc N, frame (framesAfter now period N) s)"
    by (subst animate.simps) simp
  with e show ?case by blast
next
  case (Suc d)
  then have l: "n < N" by simp
  from Suc.prems(2) have r: "running s" by (simp add: following_def)
  then have q: "scheduled s \<noteq> []" by (auto simp: running_def)
  from first l have "\<not> nearRest p target ((springStep k c m (min period 64 / 1000) target ^^ Suc n) z)"
    by simp
  from following_frame [OF Suc.prems(2) m this]
  have f: "following k c m p now period target z (Suc n) (frame (framesAfter now period n) s)" .
  from Suc.hyps(2) have "d = N - Suc n" by simp
  from Suc.hyps(1) [OF this _ f] l obtain s' where
    "animate (framesAfter now period) (Suc n) (frame (framesAfter now period n) s) = Some (Suc N, s')"
    by auto
  with q have "animate (framesAfter now period) n s = Some (Suc N, s')"
    by (subst animate.simps) simp
  then show ?case by blast
qed

lemma setTarget_following:
  assumes "\<not> isAnimating s0" "scheduled s0 = []" "currentValue s0 = Fin x0"
    "config s0 = \<lparr>stiffness = Fin k, damping = Fin c, mass = Fin m, precision = Fin p\<rparr>"
  shows "following k c m p now period target (x0, vel) 0
     (setTarget (Fin target) (Fin vel) (Fin now) s0)"
  using assms
  by (simp add: following_def setTarget_def startLoop_def requestAnimationFrame_def running_def Let_def)

lemma stable_spring_ends:
  assumes idle: "\<not> isAnimating s0" "scheduled s0 = []" "currentValue s0 = Fin x0"
    "config s0 = \<lparr>stiffness = Fin k, damping = Fin c, mass = Fin m, precision = Fin p\<rparr>"
    and pos: "0 < k" "0 < c" "0 < m" "0 < p" "0 < period"
    and st: "stableStep k c m (min period 64 / 1000)"
  shows "\<exists>j s'. animate (framesAfter now period) 0
     (setTarget (Fin target) (Fin vel) (Fin now) s0) = Some (j, s')"
proof -
  let ?z = "\<lambda>n. (springStep k c m (min period 64 / 1000) target ^^ Suc n) (x0, vel)"
  from pos have d: "0 < min period 64 / 1000" by simp
  from spring_orbit_settles [OF pos(3,1,2) d pos(4) st, of target "(x0, vel)"]
  have "\<exists>N. nearRest p target (?z N)" by (simp add: nearRest_def)
  then obtain N where last: "nearRest p target (?z N)"
    and first: "\<forall>j<N. \<not> nearRest p target (?z j)"
    unfolding exists_least_iff [of "\<lambda>N. nearRest p target (?z N)"] by blast
  from pos(3) have m: "m \<noteq> 0" by simp
  note f = setTarget_following [OF idle, of now period target vel]
  from following_ends [OF m last first _ f] show ?thesis by blast
qed



lemma diverging_start: "diverging 0 molassesStart"
  by (simp add: diverging_def molassesStart_def spring_defs)

lemma molasses_step:
  assumes "currentValue s = Fin x" "currentVelocity s = Fin v" "targetValue s = Fin 100"
    "config s = molasses" "lastTime s = Fin (64 * real n)"
  shows "stepVelocity (everyMs 64 n) s = Fin (v + (- 280 * (x - 100) - 120 * v) * (64 / 1000))"
    and "stepValue (everyMs 64 n) s =
      Fin (x + (v + (- 280 * (x - 100) - 120 * v) * (64 / 1000)) * (64 / 1000))"
proof -
  have d: "stepDelta (everyMs 64 n) s = Fin (64 / 1000)"
    using assms(5) by (simp add: stepDelta_def everyMs_def Math_min_def algebra_simps)
  show "stepVelocity (everyMs 64 n) s = Fin (v + (- 280 * (x - 100) - 120 * v) * (64 / 1000))"
    using assms(1-4) by (simp add: stepVelocity_def d molasses_def Let_def)
  then show "stepValue (everyMs 64 n) s =
      Fin (x + (v + (- 280 * (x - 100) - 120 * v) * (64 / 1000)) * (64 / 1000))"
    using assms(1) by (simp add: stepValue_def d)
qed

lemma diverging_frame:
  assumes "diverging n s"
  shows "diverging (Suc n) (frame (everyMs 64 n) s)"
proof -
  from assms obtain h x v where c: "config s = molasses" and t: "targetValue s = Fin 100"
    and q: "scheduled s = [h]" and l: "lastTime s = Fin (64 * real n)"
    and x: "currentValue s = Fin x" and v: "currentVelocity s = Fin v"
    and i: "(n = 0 \<and> x = 0 \<and> v = 0) \<or> (100 < x \<and> 1 \<le> v) \<or> (x < 100 \<and> v \<le> - 1)"
    by (auto simp: diverging_def)
  let ?s = "s\<lparr>scheduled := []\<rparr>"
  let ?v = "v + (- 280 * (x - 100) - 120 * v) * (64 / 1000)"
  let ?x = "x + ?v * (64 / 1000)"
  have sv: "stepVelocity (everyMs 64 n) s = Fin ?v" and sx: "stepValue (everyMs 64 n) s = Fin ?x"
    using molasses_step [of s x v n] c t l x v by simp_all
  define nv where "nv = ?v"
  define nx where "nx = ?x"
  have ev: "nv = - (668 / 100) * v - (1792 / 100) * (x - 100)"
    unfolding nv_def by (simp add: field_simps)
  have ex: "nx - 100 = - (14688 / 100000) * (x - 100) - (42752 / 100000) * v"
    unfolding nx_def by (simp add: field_simps)
  from i consider (rest) "x = 0" "v = 0" | (above) "100 < x" "1 \<le> v" | (below) "x < 100" "v \<le> - 1"
    by blast
  then have "(100 < nx \<and> 1 \<le> nv) \<or> (nx < 100 \<and> nv \<le> - 1)"
  proof cases
    case rest
    with ev ex show ?thesis by simp
  next
    case above
    with ev ex have "nv \<le> - 1" "nx < 100" by argo+
    then show ?thesis by simp
  next
    case below
    with ev ex have "1 \<le> nv" "100 < nx" by argo+
    then show ?thesis by simp
  qed
  then have far: "(100 < ?x \<and> 1 \<le> ?v) \<or> (?x < 100 \<and> ?v \<le> - 1)"
    unfolding nv_def nx_def .
  then have "\<not> \<bar>?v\<bar> < 1 / 100" by linarith
  then have "\<not> \<bar>stepVelocity (everyMs 64 n) s\<bar> < precision (config s)"
    unfolding sv c molasses_def by simp
  then have ns: "\<not> settles (everyMs 64 n) ?s"
    by (simp add: settles_def)
  have f: "frame (everyMs 64 n) s = tick (everyMs 64 n) ?s"
    using q by (simp add: frame_def)
  have "diverging (Suc n) (tick (everyMs 64 n) ?s)"
    unfolding tick_continues [OF ns] step_scheduled sv sx
    using c t far by (simp add: diverging_def everyMs_def)
  then show ?thesis by (simp only: f)
qed

lemma diverging_forever:
  assumes "animate clock n s = Some y"
  shows "clock = everyMs 64 \<longrightarrow> diverging n s \<longrightarrow> False"
proof (rule animate.raw_induct
    [where P = "\<lambda>clock n s y. clock = everyMs 64 \<longrightarrow> diverging n s \<longrightarrow> False", OF _ assms])
  fix animate' :: "(nat \<Rightarrow> jsnum) \<Rightarrow> nat \<Rightarrow> SpringAnimation \<Rightarrow> (nat \<times> SpringAnimation) option"
  fix clock n s y
  assume ih: "\<And>clock n s y. animate' clock n s = Some y \<Longrightarrow>
      clock = everyMs 64 \<longrightarrow> diverging n s \<longrightarrow> False"
    and eq: "(if scheduled s = [] then Some (n, s)
       else animate' clock (Suc n) (frame (clock n) s)) = Some y"
  show "clock = everyMs 64 \<longrightarrow> diverging n s \<longrightarrow> False"
  proof (intro impI)
    assume c: "clock = everyMs 64" and d: "diverging n s"
    from d have "scheduled s \<noteq> []" by (auto simp: diverging_def)
    with eq have "animate' clock (Suc n) (frame (clock n) s) = Some y" by simp
    moreover have "diverging (Suc n) (frame (clock n) s)"
      using c d by (simp add: diverging_frame)
    ultimately show False using ih c by blast
  qed
qed


section \<open>Stopping an animation\<close>

lemma queueInv_new: "queueInv (newSpringAnimation v cfg)"
  by (simp add: queueInv_def newSpringAnimation_def)

lemma queueInv_setTarget: "queueInv s \<Longrightarrow> queueInv (setTarget target velocity now s)"
  by (auto simp: queueInv_def setTarget_def startLoop_def requestAnimationFrame_def Let_def)

lemma queueInv_setConfig: "queueInv s \<Longrightarrow> queueInv (setConfig patch s)"
  by (simp add: queueInv_def setConfig_def)

lemma stop_eq:
  "stop s = s\<lparr>rafId := None, isAnimating := False,
      scheduled := (case rafId s of None \<Rightarrow> scheduled s | Some h \<Rightarrow> removeAll h (scheduled s))\<rparr>"
  by (cases "rafId s") (simp_all add: stop_def cancelAnimationFrame_def)

lemma stop_reachable: "queueInv s \<Longrightarrow> stop s = s\<lparr>rafId := None, isAnimating := False, scheduled := []\<rparr>"
  by (cases "rafId s") (auto simp: stop_eq queueInv_def)

lemma queueInv_stop: "queueInv s \<Longrightarrow> queueInv (stop s)"
  by (simp add: stop_reachable) (simp add: queueInv_def)

lemma queueInv_frame: "queueInv s \<Longrightarrow> queueInv (frame t s)"
proof (cases "scheduled s")
  case Nil
  assume "queueInv s"
  with Nil show ?thesis by (simp add: frame_def)
next
  case (Cons h hs)
  assume q: "queueInv s"
  with Cons have r: "isAnimating s" "hs = []" by (auto simp: queueInv_def)
  have f: "frame t s = tick t (s\<lparr>scheduled := []\<rparr>)"
    using Cons r by (simp add: frame_def)
  show ?thesis
  proof (cases "settles t s")
    case True
    then show ?thesis using r by (simp add: f tick_settles queueInv_def)
  next
    case False
    then show ?thesis using r by (simp add: f tick_continues queueInv_def)
  qed
qed

lemma queueInv_call: "queueInv s \<Longrightarrow> queueInv (springCall s c)"
  by (cases c) (simp_all add: queueInv_setTarget queueInv_setConfig queueInv_stop queueInv_frame)

lemma queueInv_foldl: "queueInv s \<Longrightarrow> queueInv (foldl springCall s calls)"
  by (induction calls arbitrary: s) (simp_all add: queueInv_call)

lemma queueInv_reachable: "queueInv (springAfter v cfg calls)"
  by (simp add: springAfter_def queueInv_foldl queueInv_new)

text \<open>
  Claim C9. \<open>stop()\<close> leaves \<open>getValue()\<close> and \<open>getVelocity()\<close> as they are; it only clears
  \<open>rafId\<close> and the running flag and cancels the request \<open>rafId\<close> held. On every animation
  reachable from a new one by calls of \<open>setTarget\<close>, \<open>setConfig\<close>, \<open>stop\<close> and by frames,
  nothing is pending afterwards, so a later frame runs no tick.
\<close>

theorem stop_keeps_value:
  "getValue (stop s) = getValue s \<and> getVelocity (stop s) = getVelocity s \<and>
   stop s = s\<lparr>rafId := None, isAnimating := False,
      scheduled := (case rafId s of None \<Rightarrow> scheduled s | Some h \<Rightarrow> removeAll h (scheduled s))\<rparr> \<and>
   stop (springAfter v cfg calls) =
     (springAfter v cfg calls)\<lparr>rafId := None, isAnimating := False, scheduled := []\<rparr> \<and>
   frame t (stop (springAfter v cfg calls)) = stop (springAfter v cfg calls)"
proof -
  have a: "getValue (stop s) = getValue s" "getVelocity (stop s) = getVelocity s"
    by (simp_all add: stop_eq getValue_def getVelocity_def)
  note b = stop_reachable [OF queueInv_reachable, of v cfg calls]
  have c: "frame t (stop (springAfter v cfg calls)) = stop (springAfter v cfg calls)"
    by (simp add: b frame_def)
  from a stop_eq [of s] b c show ?thesis by simp
qed

theorem stop_keeps_value_witness:
  "getValue (springAfter (Fin 0) stiff stiffCalls) = Fin (86016 / 1000) \<and>
   getVelocity (springAfter (Fin 0) stiff stiffCalls) = Fin 1344 \<and>
   scheduled (springAfter (Fin 0) stiff stiffCalls) = [2] \<and>
   getValue (stop (springAfter (Fin 0) stiff stiffCalls)) = Fin (86016 / 1000) \<and>
   getVelocity (stop (springAfter (Fin 0) stiff stiffCalls)) = Fin 1344 \<and>
   scheduled (stop (springAfter (Fin 0) stiff stiffCalls)) = [] \<and>
   \<not> isAnimating (stop (springAfter (Fin 0) stiff stiffCalls))"
proof -
  let ?s = "springAfter (Fin 0) stiff stiffCalls"
  have s: "?s = tick (Fin 64) (stiffStart\<lparr>scheduled := []\<rparr>)"
    by (simp add: springAfter_def stiffCalls_def stiffStart_def setTargetDefault_def frame_def
        stiffStart_eq [unfolded stiffStart_def setTargetDefault_def])
  have n: "\<not> settles (Fin 64) stiffStart"
    by (simp add: settles_def stiff_first_step) (simp add: stiffStart_eq stiff_def)
  have v: "getValue ?s = Fin (86016 / 1000)" "getVelocity ?s = Fin 1344" "scheduled ?s = [2]"
    using n by (simp_all add: s tick_continues getValue_def getVelocity_def stiff_first_step)
      (simp_all add: stiffStart_eq)
  note k = stop_keeps_value [of ?s "Fin 0" stiff stiffCalls]
  from k have g: "getValue (stop ?s) = getValue ?s" "getVelocity (stop ?s) = getVelocity ?s"
    by blast+
  from k have e: "stop ?s = ?s\<lparr>rafId := None, isAnimating := False, scheduled := []\<rparr>"
    by blast
  have "scheduled (stop ?s) = scheduled (?s\<lparr>rafId := None, isAnimating := False, scheduled := []\<rparr>)"
    "isAnimating (stop ?s) = isAnimating (?s\<lparr>rafId := None, isAnimating := False, scheduled := []\<rparr>)"
    using e by (rule arg_cong)+
  then have q: "scheduled (stop ?s) = []" "\<not> isAnimating (stop ?s)"
    by simp_all
  from v g q show ?thesis by simp
qed

end
